theory Spec2Isabelle
  imports Main "HOL-Library.Multiset"
begin

section \<open>Cards (card.py)\<close>

text \<open>
  \<^verbatim>\<open>class CardType(Enum)\<close> and \<^verbatim>\<open>class Card\<close>. A card is a Python integer together with
  its type; \<^verbatim>\<open>Card.__eq__\<close> compares both fields, which is the equality of the record.
\<close>

datatype CardType = REGULAR | PEAK

record Card =
  card_value :: int
  card_type :: CardType

definition mk_card :: "int \<Rightarrow> CardType \<Rightarrow> Card" where
  "mk_card v t = \<lparr>card_value = v, card_type = t\<rparr>"

definition is_peak_card :: "Card \<Rightarrow> bool" where
  "is_peak_card c = (card_type c = PEAK)"

section \<open>The deck (card.py)\<close>

text \<open>
  \<^verbatim>\<open>Deck._create_deck\<close>: the regular cards 1 to 10 in ascending order, then ten Peak cards of
  value 0. The deck is a Python list whose last element is the top (\<^verbatim>\<open>list.pop()\<close>).
\<close>

definition create_deck :: "Card list" where
  "create_deck = map (\<lambda>v. mk_card v REGULAR) [1..10] @ replicate 10 (mk_card 0 PEAK)"

text \<open>
  \<^verbatim>\<open>Deck.deal_card\<close>: pops the last card, or returns \<^verbatim>\<open>None\<close> and leaves the empty deck as
  it is. The result is the optional card and the deck afterwards.
\<close>

definition deal_card :: "Card list \<Rightarrow> Card option \<times> Card list" where
  "deal_card d = (if d \<noteq> [] then (Some (last d), butlast d) else (None, d))"

text \<open>
  \<^verbatim>\<open>Deck.deal_cards\<close>: up to \<open>count\<close> calls of \<^verbatim>\<open>deal_card\<close>, stopping at the first
  \<^verbatim>\<open>None\<close>. A \<^verbatim>\<open>Card\<close> object is always truthy, so \<^verbatim>\<open>if card:\<close> only tests for \<^verbatim>\<open>None\<close>.
\<close>

fun deal_cards :: "nat \<Rightarrow> Card list \<Rightarrow> Card list \<times> Card list" where
  "deal_cards 0 d = ([], d)"
| "deal_cards (Suc n) d =
     (case deal_card d of
        (None, d') \<Rightarrow> ([], d')
      | (Some c, d') \<Rightarrow> (case deal_cards n d' of (cs, d'') \<Rightarrow> (c # cs, d'')))"

section \<open>Players (player.py)\<close>

record Player =
  name :: string
  hand :: "Card list"
  is_disqualified :: bool
  has_finished :: bool

definition Player_init :: "string \<Rightarrow> Player" where
  "Player_init n = \<lparr>name = n, hand = [], is_disqualified = False, has_finished = False\<rparr>"

definition add_card :: "Player \<Rightarrow> Card \<Rightarrow> Player" where
  "add_card p c =
     (let p' = p\<lparr>hand := hand p @ [c]\<rparr>
      in if length (hand p') > 20 then p'\<lparr>is_disqualified := True\<rparr> else p')"

definition add_cards :: "Player \<Rightarrow> Card list \<Rightarrow> Player" where
  "add_cards p cs = foldl add_card p cs"

text \<open>
  \<^verbatim>\<open>Player.remove_card\<close>: \<^verbatim>\<open>list.remove\<close> deletes the first element equal to the card and
  raises \<^verbatim>\<open>ValueError\<close> when there is none, which the method turns into \<^verbatim>\<open>False\<close>.
\<close>

definition remove_card :: "Player \<Rightarrow> Card \<Rightarrow> bool \<times> Player" where
  "remove_card p c =
     (if c \<in> set (hand p) then (True, p\<lparr>hand := remove1 c (hand p)\<rparr>) else (False, p))"

definition has_cards :: "Player \<Rightarrow> bool" where
  "has_cards p = (length (hand p) > 0)"

definition disqualify :: "Player \<Rightarrow> Player" where
  "disqualify p = p\<lparr>is_disqualified := True\<rparr>"

definition finish_game :: "Player \<Rightarrow> Player" where
  "finish_game p = p\<lparr>has_finished := True\<rparr>"

definition is_active :: "Player \<Rightarrow> bool" where
  "is_active p = (\<not> is_disqualified p \<and> \<not> has_finished p)"

section \<open>Rules (rules.py)\<close>

definition can_play_card :: "Card \<Rightarrow> Card option \<Rightarrow> bool" where
  "can_play_card c last_played_card =
     (if is_peak_card c then True
      else case last_played_card of
        None \<Rightarrow> True
      | Some l \<Rightarrow>
          if is_peak_card l then True
          else if \<not> is_peak_card c \<and> \<not> is_peak_card l
            then \<bar>card_value c - card_value l\<bar> \<le> 1
          else False)"

definition can_finish_on_card :: "Card \<Rightarrow> bool \<Rightarrow> bool" where
  "can_finish_on_card c high_card_played_this_round =
     (if is_peak_card c then False
      else if 1 \<le> card_value c \<and> card_value c \<le> 4 then False
      else if 5 \<le> card_value c \<and> card_value c \<le> 6 then True
      else if 8 \<le> card_value c \<and> card_value c \<le> 10 then high_card_played_this_round
      else if card_value c = 7 then False
      else False)"

definition should_disqualify_player :: "Player \<Rightarrow> bool" where
  "should_disqualify_player p = (length (hand p) > 20)"

definition get_peak_card_penalty :: nat where
  "get_peak_card_penalty = 5"

definition is_high_value_card :: "Card \<Rightarrow> bool" where
  "is_high_value_card c = (\<not> is_peak_card c \<and> 8 \<le> card_value c \<and> card_value c \<le> 10)"

definition is_valid_starting_hand_size :: nat where
  "is_valid_starting_hand_size = 7"

definition get_max_players :: nat where
  "get_max_players = 4"

text \<open>
  \<^verbatim>\<open>GameRules.get_winner\<close>. The function returns one of the \<^verbatim>\<open>Player\<close> objects of the list
  it is given; an object of the list is identified by its position, so the two list
  comprehensions are lists of positions and the result is a position.
\<close>

definition active_players :: "Player list \<Rightarrow> nat list" where
  "active_players ps = filter (\<lambda>i. is_active (ps ! i)) [0..<length ps]"

definition finished_players :: "Player list \<Rightarrow> nat list" where
  "finished_players ps = filter (\<lambda>i. has_finished (ps ! i)) [0..<length ps]"

definition get_winner :: "Player list \<Rightarrow> nat option" where
  "get_winner ps =
     (if length (active_players ps) = 1 then Some (hd (active_players ps))
      else if length (active_players ps) = 0 then None
      else if finished_players ps \<noteq> [] then Some (hd (finished_players ps))
      else None)"

section \<open>The game (game.py)\<close>

text \<open>
  The exceptions the engine can raise: \<^verbatim>\<open>ValueError\<close> from the constructor, and
  \<^verbatim>\<open>IndexError\<close> from \<^verbatim>\<open>self.players[self.current_player_index]\<close> if the index were
  outside the roster.
\<close>

datatype error = ValueError | IndexError

text \<open>
  \<^verbatim>\<open>class PeakGame\<close>. The engine holds references to its \<^verbatim>\<open>Player\<close> objects; a reference
  to a player of the roster is the player's position in \<^verbatim>\<open>players\<close>, so \<^verbatim>\<open>winner\<close> is an
  optional position. The deck object is its list of cards.
\<close>

record Game =
  players :: "Player list"
  deck :: "Card list"
  discard_pile :: "Card list"
  current_player_index :: nat
  game_over :: bool
  winner :: "nat option"
  high_card_played_this_round :: bool
  round_number :: nat

text \<open>
  \<^verbatim>\<open>Deck.__init__\<close> builds the deck and calls \<^verbatim>\<open>random.shuffle\<close>, which is not code of this
  repository: its effect on the list is the parameter \<open>shuffle\<close>.
\<close>

definition Deck_init :: "(Card list \<Rightarrow> Card list) \<Rightarrow> Card list" where
  "Deck_init shuffle = shuffle create_deck"

definition PeakGame_init :: "(Card list \<Rightarrow> Card list) \<Rightarrow> string list \<Rightarrow> error + Game" where
  "PeakGame_init shuffle player_names =
     (if length player_names \<noteq> get_max_players then Inl ValueError
      else Inr \<lparr>players = map Player_init player_names,
                deck = Deck_init shuffle,
                discard_pile = [],
                current_player_index = 0,
                game_over = False,
                winner = None,
                high_card_played_this_round = False,
                round_number = 1\<rparr>)"

text \<open>
  \<^verbatim>\<open>setup_game\<close>: for each player in roster order, deal the starting hand from the shared
  deck and add the cards dealt to the player's hand. The printing is left out.
\<close>

fun deal_players :: "Player list \<Rightarrow> Card list \<Rightarrow> Player list \<times> Card list" where
  "deal_players [] d = ([], d)"
| "deal_players (p # ps) d =
     (case deal_cards is_valid_starting_hand_size d of
        (cs, d') \<Rightarrow>
          (case deal_players ps d' of (ps', d'') \<Rightarrow> (add_cards p cs # ps', d'')))"

definition setup_game :: "Game \<Rightarrow> Game" where
  "setup_game g =
     (case deal_players (players g) (deck g) of
        (ps', d') \<Rightarrow> g\<lparr>players := ps', deck := d'\<rparr>)"

definition get_last_played_card :: "Game \<Rightarrow> Card option" where
  "get_last_played_card g =
     (if discard_pile g \<noteq> [] then Some (last (discard_pile g)) else None)"

text \<open>
  \<^verbatim>\<open>_check_game_over\<close>: a winner sets \<^verbatim>\<open>game_over\<close> and is recorded; independently, no
  active player sets \<^verbatim>\<open>game_over\<close>.
\<close>

definition check_game_over :: "Game \<Rightarrow> Game" where
  "check_game_over g =
     (let g1 = (case get_winner (players g) of
                  Some w \<Rightarrow> g\<lparr>game_over := True, winner := Some w\<rparr>
                | None \<Rightarrow> g)
      in if length (active_players (players g1)) = 0 then g1\<lparr>game_over := True\<rparr> else g1)"

text \<open>
  \<^verbatim>\<open>_get_next_active_player\<close>: the positions \<open>(start_index + i) mod n\<close> for \<open>i\<close> in
  \<open>range(n)\<close>, in that order; the first active one is returned. The last position
  visited is the current player's own. The engine calls it only after
  \<^verbatim>\<open>get_current_player\<close> has succeeded, so the roster is not empty there.
\<close>

definition get_next_active_player :: "Game \<Rightarrow> nat option" where
  "get_next_active_player g =
     (let n = length (players g);
          start_index = (current_player_index g + 1) mod n
      in find (\<lambda>k. is_active (players g ! k)) (map (\<lambda>i. (start_index + i) mod n) [0..<n]))"

text \<open>
  \<^verbatim>\<open>_handle_peak_card\<close>: the next active player, if there is one, is dealt up to five cards
  and is disqualified when the hand then exceeds 20 cards.
\<close>

definition handle_peak_card :: "Game \<Rightarrow> Game" where
  "handle_peak_card g =
     (case get_next_active_player g of
        None \<Rightarrow> g
      | Some n \<Rightarrow>
          (case deal_cards get_peak_card_penalty (deck g) of
             (dealt_cards, d') \<Rightarrow>
               let p = add_cards (players g ! n) dealt_cards;
                   p' = (if should_disqualify_player p then disqualify p else p)
               in g\<lparr>deck := d', players := (players g)[n := p']\<rparr>))"

text \<open>
  \<^verbatim>\<open>_next_player\<close>. \<open>advance ps k i\<close> is the \<^verbatim>\<open>for\<close> loop with \<open>k\<close> iterations left and
  the index at \<open>i\<close>: it returns the index it stops at and whether it left through
  \<^verbatim>\<open>break\<close>. Without a \<^verbatim>\<open>break\<close> the \<^verbatim>\<open>else\<close> branch of the loop checks for the end of the
  game and returns; otherwise a new index not above the old one starts a new round.
\<close>

fun advance :: "Player list \<Rightarrow> nat \<Rightarrow> nat \<Rightarrow> nat \<times> bool" where
  "advance ps 0 i = (i, False)"
| "advance ps (Suc k) i =
     (let j = (i + 1) mod length ps
      in if is_active (ps ! j) then (j, True) else advance ps k j)"

definition next_player :: "Game \<Rightarrow> Game" where
  "next_player g =
     (let original_index = current_player_index g
      in case advance (players g) (length (players g)) original_index of
           (j, found) \<Rightarrow>
             let g' = g\<lparr>current_player_index := j\<rparr>
             in if \<not> found then check_game_over g'
                else if j \<le> original_index
                  then g'\<lparr>round_number := round_number g' + 1,
                          high_card_played_this_round := False\<rparr>
                else g')"

text \<open>
  \<^verbatim>\<open>play_card\<close>. The argument \<open>player\<close> is a reference to a \<^verbatim>\<open>Player\<close> object, compared
  with the current player by identity (\<^verbatim>\<open>Player\<close> defines no \<^verbatim>\<open>__eq__\<close>): a position of the
  roster, or any other number for an object that is not in the roster. The result is the
  boolean returned and the game afterwards, or the exception raised.
\<close>

definition play_card :: "Game \<Rightarrow> nat \<Rightarrow> Card \<Rightarrow> error + (bool \<times> Game)" where
  "play_card g player a_card =
     (if current_player_index g \<ge> length (players g) then Inl IndexError
      else if player \<noteq> current_player_index g then Inr (False, g)
      else if a_card \<notin> set (hand (players g ! player)) then Inr (False, g)
      else if \<not> can_play_card a_card (get_last_played_card g) then Inr (False, g)
      else
        let g1 = g\<lparr>players := (players g)[player := snd (remove_card (players g ! player) a_card)],
                   discard_pile := discard_pile g @ [a_card]\<rparr>;
            g2 = (if is_high_value_card a_card
                  then g1\<lparr>high_card_played_this_round := True\<rparr> else g1);
            g3 = (if is_peak_card a_card then handle_peak_card g2 else g2)
        in if \<not> has_cards (players g3 ! player) then
             if can_finish_on_card a_card (high_card_played_this_round g3) then
               Inr (True,
                 check_game_over
                   (g3\<lparr>players := (players g3)[player := finish_game (players g3 ! player)]\<rparr>))
             else
               (case deal_card (deck g3) of
                  (Some penalty_card, d') \<Rightarrow>
                    Inr (True,
                      next_player
                        (g3\<lparr>deck := d',
                            players :=
                              (players g3)[player := add_card (players g3 ! player) penalty_card]\<rparr>))
                | (None, d') \<Rightarrow> Inr (True, next_player (g3\<lparr>deck := d'\<rparr>)))
           else Inr (True, next_player g3))"

definition draw_card :: "Game \<Rightarrow> nat \<Rightarrow> error + (bool \<times> Game)" where
  "draw_card g player =
     (if current_player_index g \<ge> length (players g) then Inl IndexError
      else if player \<noteq> current_player_index g then Inr (False, g)
      else
        (case deal_card (deck g) of
           (Some a_card, d') \<Rightarrow>
             let p = add_card (players g ! player) a_card;
                 p' = (if should_disqualify_player p then disqualify p else p)
             in Inr (True, next_player (g\<lparr>deck := d', players := (players g)[player := p']\<rparr>))
         | (None, d') \<Rightarrow> Inr (False, g\<lparr>deck := d'\<rparr>)))"

section \<open>Driving the engine\<close>

text \<open>
  The calls a driver can make on a game, and the games it can reach with them from the
  constructor. A call that raises leaves no game behind. The shuffle of the constructor
  may produce any arrangement of the cards created.
\<close>

datatype call = Setup | Play nat Card | Draw nat

fun step :: "Game \<Rightarrow> call \<Rightarrow> error + Game" where
  "step g Setup = Inr (setup_game g)"
| "step g (Play p c) = map_sum id snd (play_card g p c)"
| "step g (Draw p) = map_sum id snd (draw_card g p)"

fun run :: "Game \<Rightarrow> call list \<Rightarrow> error + Game" where
  "run g [] = Inr g"
| "run g (x # xs) = (case step g x of Inl e \<Rightarrow> Inl e | Inr g' \<Rightarrow> run g' xs)"

inductive reachable :: "Game \<Rightarrow> bool" where
  reach_init: "mset (shuffle create_deck) = mset create_deck \<Longrightarrow>
         PeakGame_init shuffle player_names = Inr g \<Longrightarrow> reachable g"
| reach_step: "reachable g \<Longrightarrow> step g x = Inr g' \<Longrightarrow> reachable g'"

definition hand_sizes :: "Game \<Rightarrow> nat list" where
  "hand_sizes g = map (\<lambda>p. length (hand p)) (players g)"

definition total_cards :: "Game \<Rightarrow> nat" where
  "total_cards g = length (deck g) + sum_list (hand_sizes g) + length (discard_pile g)"

section \<open>Example games\<close>

text \<open>A player with an empty hand and the given flags.\<close>

definition pl :: "bool \<Rightarrow> bool \<Rightarrow> Player" where
  "pl d f = \<lparr>name = ''p'', hand = [], is_disqualified = d, has_finished = f\<rparr>"

text \<open>
  Four names, and the game the constructor builds from them when the shuffle leaves the
  deck as created.
\<close>

definition roster :: "string list" where
  "roster = [''Alice'', ''Bob'', ''Charlie'', ''Diana'']"

definition new_game :: Game where
  "new_game = \<lparr>players = map Player_init roster, deck = create_deck, discard_pile = [],
                current_player_index = 0, game_over = False, winner = None,
                high_card_played_this_round = False, round_number = 1\<rparr>"

text \<open>
  A shuffle that stacks the deck: from the top, the cards are 10, 9, 8, four Peak cards,
  7 down to 1, and six Peak cards.
\<close>

definition stack :: "Card list \<Rightarrow> Card list" where
  "stack d = take 6 (drop 10 d) @ take 7 d @ drop 16 d @ take 3 (drop 7 d)"

definition stacked_game :: Game where
  "stacked_game = new_game\<lparr>deck := stack create_deck\<rparr>"

text \<open>
  On the stacked deck every player draws a card and the first player then plays the 10,
  the only card held: that player has finished and the game is over.
\<close>

definition finished_game :: Game where
  "finished_game =
     projr (run stacked_game [Draw 0, Draw 1, Draw 2, Draw 3, Play 0 (mk_card 10 REGULAR)])"

text \<open>
  The game goes on being driven: the second and third player finish on the 9 and the 8,
  each finished player draws a card to pass the turn, and the fourth player, the only
  active one, holds a single Peak card.
\<close>

definition last_player_game :: Game where
  "last_player_game =
     projr (run finished_game
       [Draw 0, Play 1 (mk_card 9 REGULAR), Draw 1, Play 2 (mk_card 8 REGULAR), Draw 2])"

text \<open>
  A game after \<^verbatim>\<open>setup_game\<close> on the deck as created, where the first player has played a
  Peak card and the second the 10: it is the third player's turn, who holds the cards 6
  down to 1, and the deck is empty.
\<close>

definition blocked_game :: Game where
  "blocked_game =
     projr (run (setup_game new_game) [Play 0 (mk_card 0 PEAK), Play 1 (mk_card 10 REGULAR)])"

text \<open>The games after the first play of that example, and after a first draw from the stacked deck.\<close>

definition blocked_game_start :: Game where
  "blocked_game_start = snd (projr (play_card (setup_game new_game) 0 (mk_card 0 PEAK)))"

definition first_draw_game :: Game where
  "first_draw_game = snd (projr (draw_card stacked_game 0))"

text \<open>
  Four names as the constructor accepts them: one name twice, and the empty name twice.
\<close>

definition poor_roster :: "string list" where
  "poor_roster = [''Bob'', ''Bob'', [], []]"

text \<open>
  The game that is over is driven on: the finished first player draws a card, and the
  second player plays the 9.
\<close>

definition over_draw_game :: Game where
  "over_draw_game = snd (projr (draw_card finished_game 0))"

definition over_play_game :: Game where
  "over_play_game = snd (projr (play_card over_draw_game 1 (mk_card 9 REGULAR)))"

section \<open>Properties of the rules\<close>

text \<open>
  C1. \<^verbatim>\<open>can_play_card\<close> is true for a Peak card, true when no card has been played or the
  last played card is Peak, and for two regular cards true exactly when the values differ
  by at most one; no other combination exists, so the four equations cover every input.
  In particular a 5 may be played on a 6 and not on a 7.
\<close>

theorem can_play_card_table:
  "can_play_card (mk_card v PEAK) l = True
   \<and> can_play_card c None = True
   \<and> can_play_card c (Some (mk_card w PEAK)) = True
   \<and> can_play_card (mk_card v REGULAR) (Some (mk_card w REGULAR)) = (\<bar>v - w\<bar> \<le> 1)
   \<and> can_play_card c l =
       (is_peak_card c \<or> l = None \<or> is_peak_card (the l)
        \<or> \<bar>card_value c - card_value (the l)\<bar> \<le> 1)
   \<and> can_play_card (mk_card 5 REGULAR) (Some (mk_card 6 REGULAR)) = True
   \<and> can_play_card (mk_card 5 REGULAR) (Some (mk_card 7 REGULAR)) = False"
  by (cases l) (simp_all add: can_play_card_def is_peak_card_def mk_card_def)

text \<open>
  C2. \<^verbatim>\<open>can_finish_on_card\<close> is false for Peak cards, false for the regular values 1 to 4,
  true for 5 and 6, false for 7, and for 8 to 10 it is the value of the flag.
\<close>

theorem can_finish_on_card_table:
  "can_finish_on_card (mk_card v PEAK) h = False
   \<and> can_finish_on_card (mk_card 1 REGULAR) h = False
   \<and> can_finish_on_card (mk_card 2 REGULAR) h = False
   \<and> can_finish_on_card (mk_card 3 REGULAR) h = False
   \<and> can_finish_on_card (mk_card 4 REGULAR) h = False
   \<and> can_finish_on_card (mk_card 5 REGULAR) h = True
   \<and> can_finish_on_card (mk_card 6 REGULAR) h = True
   \<and> can_finish_on_card (mk_card 7 REGULAR) h = False
   \<and> can_finish_on_card (mk_card 8 REGULAR) h = h
   \<and> can_finish_on_card (mk_card 9 REGULAR) h = h
   \<and> can_finish_on_card (mk_card 10 REGULAR) h = h
   \<and> can_finish_on_card c h =
       (\<not> is_peak_card c
        \<and> (card_value c \<in> {5..6} \<or> card_value c \<in> {8..10} \<and> h))
   \<and> can_finish_on_card (mk_card 9 REGULAR) False = False
   \<and> can_finish_on_card (mk_card 9 REGULAR) True = True"
  by (auto simp add: can_finish_on_card_def is_peak_card_def mk_card_def)

subsection \<open>The winner\<close>

lemma filter_positions:
  "map ((!) ps) (filter (\<lambda>i. P (ps ! i)) [0..<length ps]) = filter P ps"
proof -
  have "filter P (map ((!) ps) [0..<length ps]) = filter P ps"
    by (simp add: map_nth)
  then show ?thesis
    by (simp add: filter_map comp_def)
qed

lemma length_active_players: "length (active_players ps) = length (filter is_active ps)"
  using arg_cong [OF filter_positions [of ps is_active], of length]
  by (simp add: active_players_def)

lemma hd_filter_upt:
  assumes "filter P [0..<n] \<noteq> []"
  shows "hd (filter P [0..<n]) < n" and "P (hd (filter P [0..<n]))"
    and "\<forall>j<hd (filter P [0..<n]). \<not> P j"
proof -
  obtain i rest where eq: "filter P [0..<n] = i # rest"
    using assms by (cases "filter P [0..<n]") auto
  then have mem: "i \<in> set (filter P [0..<n])" by simp
  have sorted: "sorted (filter P [0..<n])" by (simp add: sorted_wrt_filter)
  have least: "\<not> P j" if "j < i" for j
  proof
    assume "P j"
    with that mem have "j \<in> set (filter P [0..<n])" by auto
    with eq sorted have "i \<le> j" by auto
    with that show False by simp
  qed
  from eq have i: "hd (filter P [0..<n]) = i" by simp
  from mem show "hd (filter P [0..<n]) < n" unfolding i by simp
  from mem show "P (hd (filter P [0..<n]))" unfolding i by simp
  from least show "\<forall>j<hd (filter P [0..<n]). \<not> P j" unfolding i by blast
qed

lemma single_filter_upt:
  assumes "length (filter P [0..<n]) = 1" and "j < n" and "P j"
  shows "j = hd (filter P [0..<n])"
proof -
  obtain i where eq: "filter P [0..<n] = [i]"
    using assms(1) by (cases "filter P [0..<n]") auto
  from assms(2,3) have "j \<in> set (filter P [0..<n])" by simp
  with eq show ?thesis by simp
qed

text \<open>
  C3. \<^verbatim>\<open>get_winner\<close>: with exactly one active player the result is that player, the only
  active position of the list; with no active player there is no winner; with two or more
  active players the result is the first position of the list whose player has finished,
  when there is one, and no winner otherwise. Being a function of the list, it never gives
  two different winners.
\<close>

theorem get_winner_spec:
  "(length (filter is_active ps) = 1 \<longrightarrow>
      (\<exists>i<length ps. get_winner ps = Some i \<and> is_active (ps ! i)
         \<and> (\<forall>j<length ps. is_active (ps ! j) \<longrightarrow> j = i)))
   \<and> (length (filter is_active ps) = 0 \<longrightarrow> get_winner ps = None)
   \<and> (length (filter is_active ps) \<ge> 2 \<and> (\<exists>j<length ps. has_finished (ps ! j)) \<longrightarrow>
      (\<exists>i<length ps. get_winner ps = Some i \<and> has_finished (ps ! i)
         \<and> (\<forall>j<i. \<not> has_finished (ps ! j))))
   \<and> (length (filter is_active ps) \<ge> 2 \<and> \<not> (\<exists>j<length ps. has_finished (ps ! j)) \<longrightarrow>
      get_winner ps = None)
   \<and> (get_winner ps = Some a \<and> get_winner ps = Some b \<longrightarrow> a = b)"
proof (intro conjI impI)
  assume one: "length (filter is_active ps) = 1"
  let ?act = "filter (\<lambda>i. is_active (ps ! i)) [0..<length ps]"
  have len: "length ?act = 1"
    using one length_active_players [of ps] by (simp add: active_players_def)
  then have ne: "?act \<noteq> []" by auto
  have w: "get_winner ps = Some (hd ?act)"
    using len by (simp add: get_winner_def active_players_def)
  note a = hd_filter_upt(1) [OF ne] and b = hd_filter_upt(2) [OF ne]
  have c: "\<forall>j<length ps. is_active (ps ! j) \<longrightarrow> j = hd ?act"
  proof (intro allI impI)
    fix j assume "j < length ps" "is_active (ps ! j)"
    with len show "j = hd ?act"
      by (rule single_filter_upt [of "\<lambda>i. is_active (ps ! i)"])
  qed
  show "\<exists>i<length ps. get_winner ps = Some i \<and> is_active (ps ! i)
         \<and> (\<forall>j<length ps. is_active (ps ! j) \<longrightarrow> j = i)"
    by (intro exI [of _ "hd ?act"] conjI w a b c)
next
  assume "length (filter is_active ps) = 0"
  then show "get_winner ps = None"
    by (simp add: get_winner_def length_active_players)
next
  assume h: "2 \<le> length (filter is_active ps) \<and> (\<exists>j<length ps. has_finished (ps ! j))"
  let ?fin = "filter (\<lambda>i. has_finished (ps ! i)) [0..<length ps]"
  from h obtain j where "j < length ps" "has_finished (ps ! j)" by blast
  then have "j \<in> set ?fin" by simp
  then have ne: "?fin \<noteq> []" by (rule_tac notI) (simp only: set_simps empty_iff)
  from h have "2 \<le> length (active_players ps)" by (simp add: length_active_players)
  then have n1: "length (active_players ps) \<noteq> 1" and n0: "length (active_players ps) \<noteq> 0"
    by arith+
  have w: "get_winner ps = Some (hd ?fin)"
    using ne by (simp only: get_winner_def n1 n0 finished_players_def if_False if_True simp_thms)
  note a = hd_filter_upt(1) [OF ne] and b = hd_filter_upt(2) [OF ne]
    and c = hd_filter_upt(3) [OF ne]
  show "\<exists>i<length ps. get_winner ps = Some i \<and> has_finished (ps ! i)
         \<and> (\<forall>j<i. \<not> has_finished (ps ! j))"
    by (intro exI [of _ "hd ?fin"] conjI w a b c)
next
  assume h: "2 \<le> length (filter is_active ps) \<and> \<not> (\<exists>j<length ps. has_finished (ps ! j))"
  then have "filter (\<lambda>i. has_finished (ps ! i)) [0..<length ps] = []"
    by (simp add: filter_empty_conv)
  moreover from h have "2 \<le> length (active_players ps)" by (simp add: length_active_players)
  then have "length (active_players ps) \<noteq> 1" "length (active_players ps) \<noteq> 0"
    by arith+
  ultimately show "get_winner ps = None"
    by (simp only: get_winner_def finished_players_def if_False if_True simp_thms)
next
  assume "get_winner ps = Some a \<and> get_winner ps = Some b"
  then have "Some a = Some b" by (elim conjE) (rule trans [OF sym])
  then show "a = b" by (rule option.inject [THEN iffD1])
qed

theorem get_winner_spec_witness:
  "get_winner [pl True False, pl False False, pl False True, pl True False] = Some 1
   \<and> get_winner [pl True False, pl False True, pl False True, pl True False] = None
   \<and> get_winner [pl False False, pl False True, pl False True, pl False False] = Some 1
   \<and> get_winner [pl False False, pl True False, pl False False, pl False False] = None"
proof -
  let ?a = "[pl True False, pl False False, pl False True, pl True False]"
  let ?b = "[pl True False, pl False True, pl False True, pl True False]"
  let ?c = "[pl False False, pl False True, pl False True, pl False False]"
  let ?d = "[pl False False, pl True False, pl False False, pl False False]"
  have four: "k = 0 \<or> k = 1 \<or> k = 2 \<or> k = 3" if "k < 4" for k :: nat
    using that by arith
  have a: "length (filter is_active ?a) = 1" by (simp add: is_active_def pl_def)
  have b: "length (filter is_active ?b) = 0" by (simp add: is_active_def pl_def)
  have "has_finished (?c ! 1)" by (simp add: pl_def)
  then have "\<exists>j<length ?c. has_finished (?c ! j)" by (intro exI [of _ 1]) simp
  moreover have "2 \<le> length (filter is_active ?c)" by (simp add: is_active_def pl_def)
  ultimately have c: "2 \<le> length (filter is_active ?c) \<and> (\<exists>j<length ?c. has_finished (?c ! j))"
    by (rule conjI [rotated])
  have "\<forall>p\<in>set ?d. \<not> has_finished p" by (simp add: pl_def)
  then have "\<not> (\<exists>j<length ?d. has_finished (?d ! j))"
    unfolding all_set_conv_all_nth by blast
  moreover have "2 \<le> length (filter is_active ?d)" by (simp add: is_active_def pl_def)
  ultimately have d: "2 \<le> length (filter is_active ?d) \<and> \<not> (\<exists>j<length ?d. has_finished (?d ! j))"
    by (rule conjI [rotated])
  from get_winner_spec [of ?a, THEN conjunct1, rule_format, OF a] obtain i where
    i: "i < length ?a" "get_winner ?a = Some i" "is_active (?a ! i)" by blast
  from i(1) have "i = 0 \<or> i = 1 \<or> i = 2 \<or> i = 3" by (intro four) simp
  with i(3) have "i = 1" by (auto simp add: is_active_def pl_def)
  with i have ra: "get_winner ?a = Some 1" by simp
  have rb: "get_winner ?b = None"
    by (rule get_winner_spec [of ?b, THEN conjunct2, THEN conjunct1, rule_format, OF b])
  from get_winner_spec [of ?c, THEN conjunct2, THEN conjunct2, THEN conjunct1, rule_format, OF c]
  obtain k where
    k: "k < length ?c" "get_winner ?c = Some k" "has_finished (?c ! k)"
       "\<forall>j<k. \<not> has_finished (?c ! j)"
    by blast
  from k(1) have "k = 0 \<or> k = 1 \<or> k = 2 \<or> k = 3" by (intro four) simp
  moreover have "k \<noteq> 0"
  proof
    assume "k = 0"
    with k(3) show False by (simp add: pl_def)
  qed
  moreover have "\<not> 1 < k"
  proof
    assume "1 < k"
    with k(4) have "\<not> has_finished (?c ! 1)" by blast
    then show False by (simp add: pl_def)
  qed
  ultimately have "k = 1" by arith
  with k have rc: "get_winner ?c = Some 1" by simp
  have rd: "get_winner ?d = None"
    by (rule get_winner_spec [of ?d, THEN conjunct2, THEN conjunct2, THEN conjunct2,
          THEN conjunct1, rule_format, OF d])
  from ra rb rc rd show ?thesis by simp
qed

subsection \<open>Dealing\<close>

lemma deal_cards_eq: "deal_cards n d = (take n (rev d), take (length d - n) d)"
proof (induction n arbitrary: d)
  case 0
  show ?case by simp
next
  case (Suc n)
  show ?case
  proof (cases d rule: rev_cases)
    case Nil
    then show ?thesis by (simp add: deal_card_def)
  next
    case (snoc xs x)
    then show ?thesis by (simp add: deal_card_def Suc.IH)
  qed
qed

lemma deal_card_cases:
  "deal_card d = (if d = [] then (None, []) else (Some (last d), butlast d))"
  by (simp add: deal_card_def)

lemma hand_add_card: "hand (add_card p c) = hand p @ [c]"
  by (simp add: add_card_def Let_def)

lemma hand_add_cards: "hand (add_cards p cs) = hand p @ cs"
  unfolding add_cards_def
  by (induction cs arbitrary: p) (simp_all add: hand_add_card)

lemma has_finished_add_card: "has_finished (add_card p c) = has_finished p"
  by (simp add: add_card_def Let_def)

lemma has_finished_add_cards: "has_finished (add_cards p cs) = has_finished p"
  unfolding add_cards_def
  by (induction cs arbitrary: p) (simp_all add: has_finished_add_card)

lemma disqualified_add_card:
  "is_disqualified (add_card p c) = (is_disqualified p \<or> length (hand p) \<ge> 20)"
  by (auto simp add: add_card_def Let_def)

lemma disqualified_add_cards:
  "is_disqualified (add_cards p cs) =
     (is_disqualified p \<or> (cs \<noteq> [] \<and> length (hand p) + length cs > 20))"
  unfolding add_cards_def
proof (induction cs arbitrary: p)
  case Nil
  show ?case by simp
next
  case (Cons c cs)
  show ?case
    by (simp add: Cons.IH disqualified_add_card hand_add_card) (cases cs; auto)
qed

lemma deal_players_length: "length (fst (deal_players ps d)) = length ps"
  by (induction ps arbitrary: d) (simp_all add: split_beta)

lemma deal_players_total:
  "sum_list (map (\<lambda>p. length (hand p)) (fst (deal_players ps d))) + length (snd (deal_players ps d))
     = sum_list (map (\<lambda>p. length (hand p)) ps) + length d"
proof (induction ps arbitrary: d)
  case Nil
  show ?case by simp
next
  case (Cons p ps)
  have "sum_list (map (\<lambda>p. length (hand p)) (fst (deal_players ps (take (length d - 7) d))))
          + length (snd (deal_players ps (take (length d - 7) d)))
        = sum_list (map (\<lambda>p. length (hand p)) ps) + length (take (length d - 7) d)"
    by (rule Cons.IH)
  then show ?case
    by (simp add: split_beta deal_cards_eq is_valid_starting_hand_size_def hand_add_cards) 
qed

lemma setup_game_total: "total_cards (setup_game g) = total_cards g"
  using deal_players_total [of "players g" "deck g"]
  by (simp add: setup_game_def total_cards_def hand_sizes_def split_beta)

lemma setup_game_players: "length (players (setup_game g)) = length (players g)"
  by (simp add: setup_game_def split_beta deal_players_length)

lemma setup_game_index: "current_player_index (setup_game g) = current_player_index g"
  by (simp add: setup_game_def split_beta)

subsection \<open>What the turn bookkeeping leaves alone\<close>

lemma check_game_over_frame:
  "players (check_game_over g) = players g"
  "deck (check_game_over g) = deck g"
  "discard_pile (check_game_over g) = discard_pile g"
  "current_player_index (check_game_over g) = current_player_index g"
  "round_number (check_game_over g) = round_number g"
  "high_card_played_this_round (check_game_over g) = high_card_played_this_round g"
  by (simp_all add: check_game_over_def Let_def split: option.splits)

lemma next_player_frame:
  "players (next_player g) = players g"
  "deck (next_player g) = deck g"
  "discard_pile (next_player g) = discard_pile g"
  by (simp_all add: next_player_def Let_def check_game_over_frame split: prod.splits)

lemma advance_bound:
  assumes "i < length ps"
  shows "fst (advance ps k i) < length ps"
  using assms
proof (induction k arbitrary: i)
  case 0
  then show ?case by simp
next
  case (Suc k)
  from Suc.prems have "0 < length ps" by (cases ps) simp_all
  then have "(i + 1) mod length ps < length ps" by simp
  with Suc.IH [of "(i + 1) mod length ps"] show ?case by (simp add: Let_def)
qed

lemma next_player_index:
  assumes "current_player_index g < length (players g)"
  shows "current_player_index (next_player g) < length (players g)"
proof (cases "advance (players g) (length (players g)) (current_player_index g)")
  case (Pair j found)
  with advance_bound [OF assms, of "length (players g)"] have "j < length (players g)" by simp
  with Pair show ?thesis
    by (simp add: next_player_def Let_def check_game_over_frame)
qed

lemma total_cards_cong:
  "players g' = players g \<Longrightarrow> deck g' = deck g \<Longrightarrow> discard_pile g' = discard_pile g \<Longrightarrow>
   total_cards g' = total_cards g"
  by (simp add: total_cards_def hand_sizes_def)

lemma next_player_total: "total_cards (next_player g) = total_cards g"
  by (rule total_cards_cong) (rule next_player_frame)+

lemma check_game_over_total: "total_cards (check_game_over g) = total_cards g"
  by (rule total_cards_cong) (rule check_game_over_frame)+

subsection \<open>The next active player\<close>

lemma get_next_active_player_Some:
  assumes "get_next_active_player g = Some n"
  shows "n < length (players g)" and "is_active (players g ! n)"
proof -
  let ?len = "length (players g)"
  let ?start = "(current_player_index g + 1) mod ?len"
  from assms have f: "find (\<lambda>k. is_active (players g ! k))
      (map (\<lambda>i. (?start + i) mod ?len) [0..<?len]) = Some n"
    by (simp add: get_next_active_player_def Let_def)
  then obtain i where i: "i < ?len" "n = (?start + i) mod ?len" "is_active (players g ! n)"
    by (auto simp add: find_Some_iff)
  from i(1) have "0 < ?len" by (cases "players g") simp_all
  with i(2) show "n < ?len" by simp
  from i(3) show "is_active (players g ! n)" .
qed

subsection \<open>Conservation of the cards\<close>

lemma sum_hands_update:
  assumes "i < length ps"
  shows "sum_list (map (\<lambda>p. length (hand p)) (ps[i := q])) + length (hand (ps ! i))
         = sum_list (map (\<lambda>p. length (hand p)) ps) + length (hand q)"
proof -
  have "sum_list ((map (\<lambda>p. length (hand p)) ps)[i := length (hand q)])
        = sum_list (map (\<lambda>p. length (hand p)) ps) + length (hand q)
          - (map (\<lambda>p. length (hand p)) ps) ! i"
    using assms by (simp add: sum_list_update)
  moreover have "(map (\<lambda>p. length (hand p)) ps) ! i \<le> sum_list (map (\<lambda>p. length (hand p)) ps)"
    using assms by (simp add: member_le_sum_list)
  ultimately show ?thesis using assms by (simp add: map_update)
qed

lemma handle_peak_card_frame:
  "discard_pile (handle_peak_card g) = discard_pile g"
  "current_player_index (handle_peak_card g) = current_player_index g"
  "length (players (handle_peak_card g)) = length (players g)"
  "high_card_played_this_round (handle_peak_card g) = high_card_played_this_round g"
  by (simp_all add: handle_peak_card_def Let_def split: option.splits prod.splits)

lemma handle_peak_card_total: "total_cards (handle_peak_card g) = total_cards g"
proof (cases "get_next_active_player g")
  case None
  then show ?thesis by (simp add: handle_peak_card_def)
next
  case (Some n)
  let ?cs = "take 5 (rev (deck g))"
  let ?p = "add_cards (players g ! n) ?cs"
  let ?p' = "if should_disqualify_player ?p then disqualify ?p else ?p"
  have n: "n < length (players g)" using Some by (rule get_next_active_player_Some)
  have hp: "hand ?p' = hand (players g ! n) @ ?cs"
    by (simp add: disqualify_def hand_add_cards)
  have g': "handle_peak_card g = g\<lparr>deck := take (length (deck g) - 5) (deck g),
                                   players := (players g)[n := ?p']\<rparr>"
    using Some by (simp add: handle_peak_card_def deal_cards_eq get_peak_card_penalty_def Let_def)
  from sum_hands_update [OF n, of ?p'] hp
  show ?thesis
    by (simp add: g' total_cards_def hand_sizes_def)
qed

lemma total_update_player:
  assumes "i < length (players g)" and "length (hand q) + k = length (hand (players g ! i)) + m"
    and "length d + m = length (deck g) + k"
  shows "total_cards (g\<lparr>deck := d, players := (players g)[i := q]\<rparr>) = total_cards g"
  using sum_hands_update [OF assms(1), of q] assms(2,3)
  by (simp add: total_cards_def hand_sizes_def)

text \<open>The game after the card has left the hand, and after the effects of the card.\<close>

lemma play_card_accepted:
  assumes "current_player_index g < length (players g)" and "p = current_player_index g"
    and "c \<in> set (hand (players g ! p))" and "can_play_card c (get_last_played_card g)"
  shows "play_card g p c =
     (let g1 = g\<lparr>players := (players g)[p := snd (remove_card (players g ! p) c)],
                discard_pile := discard_pile g @ [c]\<rparr>;
          g2 = (if is_high_value_card c
                then g1\<lparr>high_card_played_this_round := True\<rparr> else g1);
          g3 = (if is_peak_card c then handle_peak_card g2 else g2)
      in if \<not> has_cards (players g3 ! p) then
           if can_finish_on_card c (high_card_played_this_round g3) then
             Inr (True,
               check_game_over
                 (g3\<lparr>players := (players g3)[p := finish_game (players g3 ! p)]\<rparr>))
           else
             (case deal_card (deck g3) of
                (Some penalty_card, d') \<Rightarrow>
                  Inr (True,
                    next_player
                      (g3\<lparr>deck := d',
                          players :=
                            (players g3)[p := add_card (players g3 ! p) penalty_card]\<rparr>))
              | (None, d') \<Rightarrow> Inr (True, next_player (g3\<lparr>deck := d'\<rparr>)))
         else Inr (True, next_player g3))"
  using assms unfolding play_card_def by (simp only: if_False if_True not_le [symmetric] simp_thms)

lemma play_card_rejected:
  assumes "current_player_index g < length (players g)"
    and "p \<noteq> current_player_index g \<or> c \<notin> set (hand (players g ! p))
         \<or> \<not> can_play_card c (get_last_played_card g)"
  shows "play_card g p c = Inr (False, g)"
  using assms unfolding play_card_def by auto

lemma remove_card_hand:
  assumes "c \<in> set (hand q)"
  shows "length (hand (snd (remove_card q c))) + 1 = length (hand q)"
proof -
  from assms have "0 < length (hand q)" by (cases "hand q") auto
  with assms show ?thesis by (simp add: remove_card_def length_remove1)
qed

text \<open>The three stages of an accepted play keep the number of cards and of players.\<close>

lemma play_stage1:
  assumes "p < length (players g)" and "c \<in> set (hand (players g ! p))"
  shows "total_cards (g\<lparr>players := (players g)[p := snd (remove_card (players g ! p) c)],
                            discard_pile := discard_pile g @ [c]\<rparr>) = total_cards g"
  using sum_hands_update [OF assms(1), of "snd (remove_card (players g ! p) c)"]
    remove_card_hand [OF assms(2)]
  by (simp add: total_cards_def hand_sizes_def)

lemma play_stage3_total:
  "total_cards (if is_peak_card c then handle_peak_card g2 else g2) = total_cards g2"
  by (simp add: handle_peak_card_total)

lemma play_stage3_players:
  "length (players (if is_peak_card c then handle_peak_card g2 else g2)) = length (players g2)"
  by (simp add: handle_peak_card_frame)

lemma play_stage3_index:
  "current_player_index (if is_peak_card c then handle_peak_card g2 else g2)
     = current_player_index g2"
  by (simp add: handle_peak_card_frame)

lemma finish_total:
  assumes "p < length (players g3)"
  shows "total_cards (check_game_over
           (g3\<lparr>players := (players g3)[p := finish_game (players g3 ! p)]\<rparr>)) = total_cards g3"
  using sum_hands_update [OF assms, of "finish_game (players g3 ! p)"]
  unfolding check_game_over_total
  by (simp add: total_cards_def hand_sizes_def finish_game_def)

lemma penalty_total:
  assumes "p < length (players g3)"
  shows "(case deal_card (deck g3) of
            (Some penalty_card, d') \<Rightarrow>
              total_cards (next_player
                (g3\<lparr>deck := d',
                    players := (players g3)[p := add_card (players g3 ! p) penalty_card]\<rparr>))
          | (None, d') \<Rightarrow> total_cards (next_player (g3\<lparr>deck := d'\<rparr>))) = total_cards g3"
proof (cases "deck g3 = []")
  case True
  then have "deal_card (deck g3) = (None, deck g3)" by (simp add: deal_card_def)
  then show ?thesis
    by (simp add: next_player_total)
next
  case False
  then have len: "length (butlast (deck g3)) + 1 = length (deck g3)"
    by (cases "deck g3" rule: rev_cases) simp_all
  have "total_cards (g3\<lparr>deck := butlast (deck g3),
           players := (players g3)[p := add_card (players g3 ! p) (last (deck g3))]\<rparr>)
        = total_cards g3"
    by (rule total_update_player [OF assms, of _ 0 1]) (use len in \<open>simp_all add: hand_add_card\<close>)
  with False show ?thesis
    by (simp add: deal_card_def next_player_total)
qed

lemma play_card_Inr:
  "play_card g p c = Inr r \<Longrightarrow> current_player_index g < length (players g)"
  by (cases "current_player_index g < length (players g)") (simp_all add: play_card_def)

lemma draw_card_Inr:
  "draw_card g p = Inr r \<Longrightarrow> current_player_index g < length (players g)"
  by (cases "current_player_index g < length (players g)") (simp_all add: draw_card_def)

lemma draw_card_rejected:
  assumes "current_player_index g < length (players g)"
    and "p \<noteq> current_player_index g \<or> deck g = []"
  shows "draw_card g p = Inr (False, g)"
proof (cases "p \<noteq> current_player_index g")
  case True
  with assms(1) show ?thesis by (simp add: draw_card_def)
next
  case False
  with assms(2) have "deck g = []" by blast
  then have "deal_card (deck g) = (None, deck g)" by (simp add: deal_card_def)
  with assms(1) show ?thesis by (simp add: draw_card_def)
qed

lemma play_card_invariant:
  assumes "play_card g p c = Inr (b, g')"
  shows "total_cards g' = total_cards g \<and> length (players g') = length (players g)
         \<and> current_player_index g' < length (players g')"
proof -
  have cur: "current_player_index g < length (players g)"
    using assms by (rule play_card_Inr)
  show ?thesis
  proof (cases "p \<noteq> current_player_index g \<or> c \<notin> set (hand (players g ! p))
         \<or> \<not> can_play_card c (get_last_played_card g)")
    case True
    with play_card_rejected [OF cur True] assms cur show ?thesis by simp
  next
    case False
    then have p: "p = current_player_index g" and c: "c \<in> set (hand (players g ! p))"
      and ok: "can_play_card c (get_last_played_card g)" by blast+
    from p cur have pl: "p < length (players g)" by simp
    define g1 where "g1 = g\<lparr>players := (players g)[p := snd (remove_card (players g ! p) c)],
                discard_pile := discard_pile g @ [c]\<rparr>"
    define g2 where "g2 = (if is_high_value_card c
                then g1\<lparr>high_card_played_this_round := True\<rparr> else g1)"
    define g3 where "g3 = (if is_peak_card c then handle_peak_card g2 else g2)"
    have t1: "total_cards g1 = total_cards g"
      unfolding g1_def by (rule play_stage1 [OF pl c])
    have l1: "length (players g1) = length (players g)"
      and i1: "current_player_index g1 = current_player_index g"
      by (simp_all add: g1_def)
    have t2: "total_cards g2 = total_cards g1" and l2: "length (players g2) = length (players g1)"
      and i2: "current_player_index g2 = current_player_index g1"
      by (simp_all add: g2_def total_cards_def hand_sizes_def)
    have t3: "total_cards g3 = total_cards g2" and l3: "length (players g3) = length (players g2)"
      and i3: "current_player_index g3 = current_player_index g2"
      unfolding g3_def
      by (rule play_stage3_total, rule play_stage3_players, rule play_stage3_index)
    have T: "total_cards g3 = total_cards g" using t1 t2 t3 by simp
    have L: "length (players g3) = length (players g)" using l1 l2 l3 by simp
    have I: "current_player_index g3 = p" using i1 i2 i3 p by simp
    have pl3: "p < length (players g3)" using pl L by simp
    have eq: "play_card g p c =
      (if \<not> has_cards (players g3 ! p) then
           if can_finish_on_card c (high_card_played_this_round g3) then
             Inr (True,
               check_game_over
                 (g3\<lparr>players := (players g3)[p := finish_game (players g3 ! p)]\<rparr>))
           else
             (case deal_card (deck g3) of
                (Some penalty_card, d') \<Rightarrow>
                  Inr (True,
                    next_player
                      (g3\<lparr>deck := d',
                          players :=
                            (players g3)[p := add_card (players g3 ! p) penalty_card]\<rparr>))
              | (None, d') \<Rightarrow> Inr (True, next_player (g3\<lparr>deck := d'\<rparr>)))
         else Inr (True, next_player g3))"
      unfolding play_card_accepted [OF cur p c ok] g3_def g2_def g1_def Let_def ..
    consider (finish) "\<not> has_cards (players g3 ! p)"
        "can_finish_on_card c (high_card_played_this_round g3)"
      | (penalty) "\<not> has_cards (players g3 ! p)"
        "\<not> can_finish_on_card c (high_card_played_this_round g3)"
      | (go_on) "has_cards (players g3 ! p)" by blast
    then show ?thesis
    proof cases
      case finish
      with eq assms have g': "g' = check_game_over
                 (g3\<lparr>players := (players g3)[p := finish_game (players g3 ! p)]\<rparr>)" by simp
      show ?thesis
        unfolding g' using finish_total [OF pl3] T L I pl3
        by (simp add: check_game_over_frame)
    next
      case penalty
      show ?thesis
      proof (cases "deck g3 = []")
        case True
        with penalty eq assms have g': "g' = next_player (g3\<lparr>deck := deck g3\<rparr>)"
          by (simp add: deal_card_def)
        then have g': "g' = next_player g3" by simp
        show ?thesis
          unfolding g' using T L I pl3 next_player_index [of g3]
          by (simp add: next_player_total next_player_frame)
      next
        case False
        let ?g4 = "g3\<lparr>deck := butlast (deck g3),
                    players := (players g3)[p := add_card (players g3 ! p) (last (deck g3))]\<rparr>"
        from False penalty eq assms have g': "g' = next_player ?g4"
          by (simp add: deal_card_def)
        from penalty_total [OF pl3] False have "total_cards (next_player ?g4) = total_cards g3"
          by (simp add: deal_card_def)
        moreover have "current_player_index (next_player ?g4) < length (players ?g4)"
          by (rule next_player_index) (use I pl3 in simp)
        ultimately show ?thesis
          unfolding g' using T L by (simp add: next_player_frame)
      qed
    next
      case go_on
      with eq assms have g': "g' = next_player g3" by simp
      show ?thesis
        unfolding g' using T L I pl3 next_player_index [of g3]
        by (simp add: next_player_total next_player_frame)
    qed
  qed
qed

lemma draw_card_invariant:
  assumes "draw_card g p = Inr (b, g')"
  shows "total_cards g' = total_cards g \<and> length (players g') = length (players g)
         \<and> current_player_index g' < length (players g')"
proof -
  have cur: "current_player_index g < length (players g)"
    using assms by (rule draw_card_Inr)
  show ?thesis
  proof (cases "p \<noteq> current_player_index g \<or> deck g = []")
    case True
    from draw_card_rejected [OF cur True] assms have "g' = g" by simp
    with cur show ?thesis by simp
  next
    case False
    then have p: "p = current_player_index g" and d: "deck g \<noteq> []" by simp_all
    from p cur have pl: "p < length (players g)" by simp
    let ?q = "add_card (players g ! p) (last (deck g))"
    let ?q' = "if should_disqualify_player ?q then disqualify ?q else ?q"
    let ?g1 = "g\<lparr>deck := butlast (deck g), players := (players g)[p := ?q']\<rparr>"
    from assms cur p d have g': "g' = next_player ?g1"
      by (auto simp add: draw_card_def deal_card_def Let_def)
    from d have len: "length (butlast (deck g)) + 1 = length (deck g)"
      by (cases "deck g" rule: rev_cases) simp_all
    have "total_cards ?g1 = total_cards g"
      by (rule total_update_player [OF pl, of _ 0 1])
        (use len in \<open>simp_all add: hand_add_card disqualify_def\<close>)
    moreover have "current_player_index (next_player ?g1) < length (players ?g1)"
      by (rule next_player_index) (use p pl in simp)
    ultimately show ?thesis
      unfolding g' by (simp add: next_player_total next_player_frame)
  qed
qed

subsection \<open>Games reached from the constructor\<close>

lemma length_create_deck: "length create_deck = 20"
  by (simp add: create_deck_def)

lemma PeakGame_init_Inr:
  assumes "PeakGame_init shuffle player_names = Inr g"
  shows "length player_names = 4"
    and "g = \<lparr>players = map Player_init player_names, deck = shuffle create_deck,
              discard_pile = [], current_player_index = 0, game_over = False,
              winner = None, high_card_played_this_round = False, round_number = 1\<rparr>"
  using assms
  by (simp_all add: PeakGame_init_def get_max_players_def Deck_init_def split: if_splits)

lemma fresh_game_invariant:
  assumes "mset (shuffle create_deck) = mset create_deck"
    and "PeakGame_init shuffle player_names = Inr g"
  shows "length (players g) = 4" and "total_cards g = 20" and "current_player_index g = 0"
    and "length (deck g) = 20" and "\<forall>p\<in>set (players g). hand p = []"
proof -
  note g = PeakGame_init_Inr [OF assms(2)]
  from assms(1) have "length (shuffle create_deck) = length create_deck"
    by (rule mset_eq_length)
  then have d: "length (shuffle create_deck) = 20" by (simp add: length_create_deck)
  show "length (players g) = 4" unfolding g(2) using g(1) by simp
  show "total_cards g = 20"
    unfolding g(2) total_cards_def hand_sizes_def by (simp add: d Player_init_def comp_def)
  show "current_player_index g = 0" unfolding g(2) by simp
  show "length (deck g) = 20" unfolding g(2) using d by simp
  show "\<forall>p\<in>set (players g). hand p = []"
    unfolding g(2) by (simp add: Player_init_def)
qed

text \<open>On a well-formed game the engine never raises.\<close>

lemma play_card_returns:
  assumes "current_player_index g < length (players g)"
  shows "\<exists>b g'. play_card g p c = Inr (b, g')"
proof (cases "play_card g p c")
  case (Inl e)
  with assms show ?thesis
    unfolding play_card_def Let_def
    by (simp split: if_splits prod.splits option.splits)
next
  case (Inr r)
  then show ?thesis by (cases r) simp
qed

lemma draw_card_returns:
  assumes "current_player_index g < length (players g)"
  shows "\<exists>b g'. draw_card g p = Inr (b, g')"
proof (cases "draw_card g p")
  case (Inl e)
  with assms show ?thesis
    unfolding draw_card_def Let_def
    by (simp split: if_splits prod.splits option.splits)
next
  case (Inr r)
  then show ?thesis by (cases r) simp
qed

lemma step_invariant:
  assumes "step g x = Inr g'" and "current_player_index g < length (players g)"
  shows "total_cards g' = total_cards g \<and> length (players g') = length (players g)
         \<and> current_player_index g' < length (players g')"
proof (cases x)
  case Setup
  with assms(1) have g': "g' = setup_game g" by simp
  show ?thesis
    unfolding g' using assms(2)
    by (simp add: setup_game_total setup_game_players setup_game_index)
next
  case (Play p c)
  from play_card_returns [OF assms(2)] obtain b g1 where r: "play_card g p c = Inr (b, g1)"
    by blast
  with Play assms(1) have "g1 = g'" by simp
  with play_card_invariant [OF r] show ?thesis by simp
next
  case (Draw p)
  from draw_card_returns [OF assms(2)] obtain b g1 where r: "draw_card g p = Inr (b, g1)"
    by blast
  with Draw assms(1) have "g1 = g'" by simp
  with draw_card_invariant [OF r] show ?thesis by simp
qed

lemma reachable_invariant:
  assumes "reachable g"
  shows "length (players g) = 4 \<and> total_cards g = 20
         \<and> current_player_index g < length (players g)"
  using assms
proof (induction rule: reachable.induct)
  case (reach_init shuffle player_names g)
  then show ?case using fresh_game_invariant(1,2,3) [of shuffle player_names g] by simp
next
  case (reach_step g x g')
  with step_invariant [of g x g'] show ?case by simp
qed

lemma run_reachable:
  "reachable g \<Longrightarrow> run g xs = Inr g' \<Longrightarrow> reachable g'"
proof (induction xs arbitrary: g)
  case Nil
  then show ?case by simp
next
  case (Cons x xs)
  from Cons.prems(2) obtain g1 where s: "step g x = Inr g1" and r: "run g1 xs = Inr g'"
    by (cases "step g x") auto
  from Cons.prems(1) s have "reachable g1" by (rule reachable.reach_step)
  then show ?case using r by (rule Cons.IH)
qed

subsection \<open>The example games are reached from the constructor\<close>

lemma reachable_new_game: "reachable new_game"
proof (rule reachable.reach_init [of "\<lambda>d. d" roster])
  show "mset create_deck = mset create_deck" ..
  show "PeakGame_init (\<lambda>d. d) roster = Inr new_game"
    by (simp add: PeakGame_init_def new_game_def roster_def get_max_players_def Deck_init_def)
qed

lemma reachable_stacked_game: "reachable stacked_game"
proof (rule reachable.reach_init [of stack roster])
  show "mset (stack create_deck) = mset create_deck" by code_simp
  show "PeakGame_init stack roster = Inr stacked_game"
    by (simp add: PeakGame_init_def stacked_game_def new_game_def roster_def
        get_max_players_def Deck_init_def)
qed

lemma reachable_setup_new_game: "reachable (setup_game new_game)"
  by (rule reachable.reach_step [OF reachable_new_game, of Setup]) simp

lemma run_finished_game:
  "run stacked_game [Draw 0, Draw 1, Draw 2, Draw 3, Play 0 (mk_card 10 REGULAR)]
     = Inr finished_game"
  unfolding finished_game_def by code_simp

lemma reachable_finished_game: "reachable finished_game"
  by (rule run_reachable [OF reachable_stacked_game run_finished_game])

lemma run_last_player_game:
  "run finished_game
     [Draw 0, Play 1 (mk_card 9 REGULAR), Draw 1, Play 2 (mk_card 8 REGULAR), Draw 2]
     = Inr last_player_game"
  unfolding last_player_game_def by code_simp

lemma reachable_last_player_game: "reachable last_player_game"
  by (rule run_reachable [OF reachable_finished_game run_last_player_game])

lemma run_blocked_game:
  "run (setup_game new_game) [Play 0 (mk_card 0 PEAK), Play 1 (mk_card 10 REGULAR)]
     = Inr blocked_game"
  unfolding blocked_game_def by code_simp

lemma reachable_blocked_game: "reachable blocked_game"
  by (rule run_reachable [OF reachable_setup_new_game run_blocked_game])

subsection \<open>Conservation of the twenty cards\<close>

text \<open>
  C4. In every game reached from the constructor by \<^verbatim>\<open>setup_game\<close>, \<^verbatim>\<open>play_card\<close> and
  \<^verbatim>\<open>draw_card\<close> there are four players, and the cards in the deck, in the hands and on
  the discard pile are twenty together. Each of the three operations keeps that sum, on
  any game; and on a game reached from the constructor \<^verbatim>\<open>play_card\<close> and \<^verbatim>\<open>draw_card\<close>
  always return.
\<close>

theorem card_conservation:
  "(reachable g \<longrightarrow> length (players g) = 4 \<and> total_cards g = 20)
   \<and> total_cards (setup_game g) = total_cards g
   \<and> (play_card g p c = Inr (b, g1) \<longrightarrow> total_cards g1 = total_cards g)
   \<and> (draw_card g p = Inr (b', g2) \<longrightarrow> total_cards g2 = total_cards g)
   \<and> (reachable g \<longrightarrow>
        (\<exists>r. play_card g p c = Inr r) \<and> (\<exists>r. draw_card g p = Inr r))"
proof (intro conjI impI)
  assume "reachable g"
  then show "length (players g) = 4" and "total_cards g = 20"
    using reachable_invariant by blast+
next
  show "total_cards (setup_game g) = total_cards g" by (rule setup_game_total)
next
  assume "play_card g p c = Inr (b, g1)"
  then show "total_cards g1 = total_cards g" using play_card_invariant by blast
next
  assume "draw_card g p = Inr (b', g2)"
  then show "total_cards g2 = total_cards g" using draw_card_invariant by blast
next
  assume "reachable g"
  then have "current_player_index g < length (players g)"
    using reachable_invariant by blast
  then show "\<exists>r. play_card g p c = Inr r" and "\<exists>r. draw_card g p = Inr r"
    using play_card_returns [of g p c] draw_card_returns [of g p] by blast+
qed

theorem card_conservation_witness:
  "length (players (setup_game new_game)) = 4
   \<and> total_cards (setup_game new_game) = 20
   \<and> play_card (setup_game new_game) 0 (mk_card 0 PEAK) = Inr (True, blocked_game_start)
   \<and> total_cards blocked_game_start = 20
   \<and> draw_card stacked_game 0 = Inr (True, first_draw_game)
   \<and> total_cards first_draw_game = 20"
proof -
  have play: "play_card (setup_game new_game) 0 (mk_card 0 PEAK) = Inr (True, blocked_game_start)"
    unfolding blocked_game_start_def by code_simp
  have draw: "draw_card stacked_game 0 = Inr (True, first_draw_game)"
    unfolding first_draw_game_def by code_simp
  note a = card_conservation [of "setup_game new_game" 0 "mk_card 0 PEAK" True blocked_game_start]
  note b = card_conservation [of stacked_game 0 _ _ _ True first_draw_game]
  from a reachable_setup_new_game have 1: "length (players (setup_game new_game)) = 4"
    and 2: "total_cards (setup_game new_game) = 20" by blast+
  from a play have "total_cards blocked_game_start = total_cards (setup_game new_game)" by blast
  with 2 have 3: "total_cards blocked_game_start = 20" by simp
  from b reachable_stacked_game have "total_cards stacked_game = 20" by blast
  moreover from b draw have "total_cards first_draw_game = total_cards stacked_game" by blast
  ultimately have 4: "total_cards first_draw_game = 20" by simp
  from 1 2 play 3 draw 4 show ?thesis by blast
qed

subsection \<open>The deal of \<^verbatim>\<open>setup_game\<close>\<close>

lemma deal_players_four:
  assumes "length d = 20"
    and "hand a = []" and "hand b = []" and "hand c = []" and "hand e = []"
  shows "map hand (fst (deal_players [a, b, c, e] d))
           = [take 7 (rev d), take 7 (drop 7 (rev d)), drop 14 (rev d), []]"
    and "snd (deal_players [a, b, c, e] d) = []"
proof -
  have r1: "rev (take 13 d) = drop 7 (rev d)"
    using assms(1) by (simp add: rev_take)
  have r2: "rev (take 6 d) = drop 14 (rev d)"
    using assms(1) by (simp add: rev_take)
  have t: "take 7 (drop 14 (rev d)) = drop 14 (rev d)"
    using assms(1) by simp
  show "map hand (fst (deal_players [a, b, c, e] d))
           = [take 7 (rev d), take 7 (drop 7 (rev d)), drop 14 (rev d), []]"
    using assms
    by (simp add: deal_cards_eq is_valid_starting_hand_size_def hand_add_cards r1 r2 t
        min_def)
  show "snd (deal_players [a, b, c, e] d) = []"
    using assms(1)
    by (simp add: deal_cards_eq is_valid_starting_hand_size_def)
qed

text \<open>
  C9. On a freshly constructed game, whatever the shuffle, \<^verbatim>\<open>setup_game\<close> asks for seven
  cards for each player in roster order and the players receive 7, 7, 6 and 0 cards: the
  first fourteen cards from the top of the deck, in two hands, the remaining six, and
  nothing. Twenty cards are dealt and the deck is empty afterwards.
\<close>

theorem setup_game_deal:
  assumes "mset (shuffle create_deck) = mset create_deck"
    and "PeakGame_init shuffle player_names = Inr g"
  shows "hand_sizes (setup_game g) = [7, 7, 6, 0]
         \<and> sum_list (hand_sizes (setup_game g)) = 20
         \<and> deck (setup_game g) = []
         \<and> map hand (players (setup_game g))
             = [take 7 (rev (deck g)), take 7 (drop 7 (rev (deck g))),
                drop 14 (rev (deck g)), []]"
proof -
  note inv = fresh_game_invariant [OF assms]
  from inv(1) obtain a b c e where ps: "players g = [a, b, c, e]"
    by (auto simp add: length_Suc_conv numeral_eq_Suc)
  with inv(5) have h: "hand a = []" "hand b = []" "hand c = []" "hand e = []" by simp_all
  note four = deal_players_four [OF inv(4) h]
  have hands: "map hand (players (setup_game g))
             = [take 7 (rev (deck g)), take 7 (drop 7 (rev (deck g))),
                drop 14 (rev (deck g)), []]"
    using four(1) by (simp add: setup_game_def ps split_beta)
  have "hand_sizes (setup_game g) = map length (map hand (players (setup_game g)))"
    by (simp add: hand_sizes_def)
  also have "\<dots> = [7, 7, 6, 0]"
    unfolding hands using inv(4) by simp
  finally have sizes: "hand_sizes (setup_game g) = [7, 7, 6, 0]" .
  have "deck (setup_game g) = []"
    using four(2) by (simp add: setup_game_def ps split_beta)
  with sizes hands show ?thesis by simp
qed

theorem setup_game_deal_witness:
  "hand_sizes (setup_game new_game) = [7, 7, 6, 0]
   \<and> sum_list (hand_sizes (setup_game new_game)) = 20
   \<and> deck (setup_game new_game) = []
   \<and> map hand (players (setup_game new_game))
       = [replicate 7 (mk_card 0 PEAK),
          replicate 3 (mk_card 0 PEAK) @ map (\<lambda>v. mk_card v REGULAR) [10, 9, 8, 7],
          map (\<lambda>v. mk_card v REGULAR) [6, 5, 4, 3, 2, 1],
          []]"
proof -
  have p: "mset ((\<lambda>d. d) create_deck) = mset create_deck" by simp
  have i: "PeakGame_init (\<lambda>d. d) roster = Inr new_game"
    by (simp add: PeakGame_init_def new_game_def roster_def get_max_players_def Deck_init_def)
  have d: "[take 7 (rev (deck new_game)), take 7 (drop 7 (rev (deck new_game))),
            drop 14 (rev (deck new_game)), []]
      = [replicate 7 (mk_card 0 PEAK),
          replicate 3 (mk_card 0 PEAK) @ map (\<lambda>v. mk_card v REGULAR) [10, 9, 8, 7],
          map (\<lambda>v. mk_card v REGULAR) [6, 5, 4, 3, 2, 1],
          []]"
    by code_simp
  from setup_game_deal [OF p i] show ?thesis unfolding d .
qed

subsection \<open>Rejected moves\<close>

lemma play_card_accepted_True:
  assumes "current_player_index g < length (players g)" and "p = current_player_index g"
    and "c \<in> set (hand (players g ! p))" and "can_play_card c (get_last_played_card g)"
  shows "fst (projr (play_card g p c)) = True"
  unfolding play_card_accepted [OF assms] Let_def
  by (simp split: prod.split option.split)

lemma play_card_False:
  assumes "play_card g p c = Inr (False, g')"
  shows "g' = g"
proof (cases "p \<noteq> current_player_index g \<or> c \<notin> set (hand (players g ! p))
         \<or> \<not> can_play_card c (get_last_played_card g)")
  case True
  from play_card_rejected [OF play_card_Inr [OF assms] True] assms show ?thesis by simp
next
  case False
  then have "p = current_player_index g" "c \<in> set (hand (players g ! p))"
    "can_play_card c (get_last_played_card g)" by blast+
  from play_card_accepted_True [OF play_card_Inr [OF assms] this] assms
  show ?thesis by simp
qed

lemma draw_card_False:
  assumes "draw_card g p = Inr (False, g')"
  shows "g' = g"
proof (cases "p \<noteq> current_player_index g \<or> deck g = []")
  case True
  from draw_card_rejected [OF draw_card_Inr [OF assms] True] assms show ?thesis by simp
next
  case False
  with assms draw_card_Inr [OF assms] show ?thesis
    by (simp add: draw_card_def deal_card_def Let_def)
qed

text \<open>
  C7. A call of \<^verbatim>\<open>play_card\<close> by a player who is not the current player, with a card that is
  not in the hand, or with a card that \<^verbatim>\<open>can_play_card\<close> refuses on the top of the discard
  pile, returns \<^verbatim>\<open>False\<close> and the game is the same afterwards; so does a call of
  \<^verbatim>\<open>draw_card\<close> by a player who is not the current player or on an empty deck, which in
  particular leaves the turn pointer where it was. Whenever either returns \<^verbatim>\<open>False\<close> the
  game is unchanged. The turn pointer of the game is inside the roster, as it is in every
  game reached from the constructor.
\<close>

theorem rejected_move_unchanged:
  "(current_player_index g < length (players g)
      \<and> (p \<noteq> current_player_index g \<or> c \<notin> set (hand (players g ! p))
          \<or> \<not> can_play_card c (get_last_played_card g))
      \<longrightarrow> play_card g p c = Inr (False, g))
   \<and> (current_player_index g < length (players g)
      \<and> (p \<noteq> current_player_index g \<or> deck g = [])
      \<longrightarrow> draw_card g p = Inr (False, g)
          \<and> current_player_index (snd (projr (draw_card g p))) = current_player_index g)
   \<and> (play_card g p c = Inr (False, g1) \<longrightarrow> g1 = g)
   \<and> (draw_card g p = Inr (False, g2) \<longrightarrow> g2 = g)
   \<and> (reachable g \<longrightarrow> current_player_index g < length (players g))"
proof (intro conjI impI)
  assume "current_player_index g < length (players g)
      \<and> (p \<noteq> current_player_index g \<or> c \<notin> set (hand (players g ! p))
          \<or> \<not> can_play_card c (get_last_played_card g))"
  then show "play_card g p c = Inr (False, g)"
    using play_card_rejected by blast
next
  assume a: "current_player_index g < length (players g)
      \<and> (p \<noteq> current_player_index g \<or> deck g = [])"
  then show d: "draw_card g p = Inr (False, g)"
    using draw_card_rejected by blast
  show "current_player_index (snd (projr (draw_card g p))) = current_player_index g"
    unfolding d by simp
next
  assume "play_card g p c = Inr (False, g1)"
  then show "g1 = g" by (rule play_card_False)
next
  assume "draw_card g p = Inr (False, g2)"
  then show "g2 = g" by (rule draw_card_False)
next
  assume "reachable g"
  then show "current_player_index g < length (players g)"
    using reachable_invariant by blast
qed

theorem rejected_move_unchanged_witness:
  "current_player_index blocked_game = 2
   \<and> mk_card 6 REGULAR \<in> set (hand (players blocked_game ! 2))
   \<and> play_card blocked_game 3 (mk_card 0 PEAK) = Inr (False, blocked_game)
   \<and> play_card blocked_game 2 (mk_card 9 REGULAR) = Inr (False, blocked_game)
   \<and> play_card blocked_game 2 (mk_card 6 REGULAR) = Inr (False, blocked_game)
   \<and> draw_card blocked_game 3 = Inr (False, blocked_game)
   \<and> draw_card blocked_game 2 = Inr (False, blocked_game)"
proof -
  have cur: "current_player_index blocked_game = 2" by code_simp
  have len: "current_player_index blocked_game < length (players blocked_game)"
    using rejected_move_unchanged [of blocked_game] reachable_blocked_game by blast
  have other: "(3::nat) \<noteq> current_player_index blocked_game" by (simp add: cur)
  have missing: "mk_card 9 REGULAR \<notin> set (hand (players blocked_game ! 2))" by code_simp
  have illegal: "\<not> can_play_card (mk_card 6 REGULAR) (get_last_played_card blocked_game)"
    by code_simp
  have held: "mk_card 6 REGULAR \<in> set (hand (players blocked_game ! 2))" by code_simp
  have empty: "deck blocked_game = []" by code_simp
  have 1: "play_card blocked_game 3 (mk_card 0 PEAK) = Inr (False, blocked_game)"
    using rejected_move_unchanged [of blocked_game 3 "mk_card 0 PEAK"] len other by blast
  have 2: "play_card blocked_game 2 (mk_card 9 REGULAR) = Inr (False, blocked_game)"
    using rejected_move_unchanged [of blocked_game 2 "mk_card 9 REGULAR"] len missing by blast
  have 3: "play_card blocked_game 2 (mk_card 6 REGULAR) = Inr (False, blocked_game)"
    using rejected_move_unchanged [of blocked_game 2 "mk_card 6 REGULAR"] len illegal by blast
  have 4: "draw_card blocked_game 3 = Inr (False, blocked_game)"
    using rejected_move_unchanged [of blocked_game 3] len other by blast
  have 5: "draw_card blocked_game 2 = Inr (False, blocked_game)"
    using rejected_move_unchanged [of blocked_game 2] len empty by blast
  from cur held 1 2 3 4 5 show ?thesis by blast
qed

subsection \<open>Construction\<close>

text \<open>
  C6, as the specification states it, fails: the constructor accepts four names of which
  two are equal and two are empty.
\<close>

theorem construction_counterexample:
  "\<not> distinct poor_roster \<and> [] \<in> set poor_roster
   \<and> (\<exists>g. PeakGame_init (\<lambda>d. d) poor_roster = Inr g \<and> map name (players g) = poor_roster)"
  by (simp add: poor_roster_def PeakGame_init_def get_max_players_def Player_init_def)

text \<open>
  C6, amended. The constructor succeeds exactly when it is given four names, whatever they
  are: the game then has one player for each name, in order, with an empty hand and no
  flag set, the shuffled deck, an empty discard pile, the turn at the first player and
  round 1. With any other number of names it raises \<^verbatim>\<open>ValueError\<close> and there is no game.
\<close>

theorem construction_by_count:
  "(length player_names = 4 \<longrightarrow>
      (\<exists>g. PeakGame_init shuffle player_names = Inr g
         \<and> map name (players g) = player_names
         \<and> (\<forall>p\<in>set (players g). hand p = [] \<and> \<not> is_disqualified p \<and> \<not> has_finished p)
         \<and> deck g = shuffle create_deck \<and> discard_pile g = []
         \<and> current_player_index g = 0 \<and> \<not> game_over g \<and> winner g = None
         \<and> \<not> high_card_played_this_round g \<and> round_number g = 1))
   \<and> (length player_names \<noteq> 4 \<longrightarrow> PeakGame_init shuffle player_names = Inl ValueError)
   \<and> ((\<exists>g. PeakGame_init shuffle player_names = Inr g) = (length player_names = 4))"
  by (auto simp add: PeakGame_init_def get_max_players_def Player_init_def Deck_init_def
      comp_def)

theorem construction_by_count_witness:
  "(\<exists>g. PeakGame_init stack roster = Inr g \<and> map name (players g) = roster
        \<and> deck g = stack create_deck \<and> current_player_index g = 0)
   \<and> PeakGame_init stack [''Alice'', ''Bob''] = Inl ValueError
   \<and> PeakGame_init stack [''Alice'', ''Bob'', ''Charlie'', ''Diana'', ''Eve''] = Inl ValueError"
proof -
  have 4: "length roster = 4" by (simp add: roster_def)
  have 2: "length [''Alice'', ''Bob''] \<noteq> 4" by simp
  have 5: "length [''Alice'', ''Bob'', ''Charlie'', ''Diana'', ''Eve''] \<noteq> 4" by simp
  from construction_by_count [of roster stack] 4
  have a: "\<exists>g. PeakGame_init stack roster = Inr g \<and> map name (players g) = roster
        \<and> deck g = stack create_deck \<and> current_player_index g = 0"
    by blast
  from construction_by_count [of "[''Alice'', ''Bob'']" stack] 2
  have b: "PeakGame_init stack [''Alice'', ''Bob''] = Inl ValueError" by blast
  from construction_by_count [of "[''Alice'', ''Bob'', ''Charlie'', ''Diana'', ''Eve'']" stack] 5
  have c: "PeakGame_init stack [''Alice'', ''Bob'', ''Charlie'', ''Diana'', ''Eve'']
             = Inl ValueError" by blast
  from a b c show ?thesis by blast
qed

subsection \<open>The stages of an accepted play\<close>

lemma play_card_stages:
  assumes "current_player_index g < length (players g)" and "p = current_player_index g"
    and "c \<in> set (hand (players g ! p))" and "can_play_card c (get_last_played_card g)"
    and "g1 = g\<lparr>players := (players g)[p := snd (remove_card (players g ! p) c)],
                 discard_pile := discard_pile g @ [c]\<rparr>"
    and "g2 = (if is_high_value_card c then g1\<lparr>high_card_played_this_round := True\<rparr> else g1)"
    and "g3 = (if is_peak_card c then handle_peak_card g2 else g2)"
  shows "play_card g p c =
      (if \<not> has_cards (players g3 ! p) then
           if can_finish_on_card c (high_card_played_this_round g3) then
             Inr (True,
               check_game_over
                 (g3\<lparr>players := (players g3)[p := finish_game (players g3 ! p)]\<rparr>))
           else if deck g3 \<noteq> [] then
             Inr (True,
               next_player
                 (g3\<lparr>deck := butlast (deck g3),
                     players := (players g3)[p := add_card (players g3 ! p) (last (deck g3))]\<rparr>))
           else Inr (True, next_player g3)
         else Inr (True, next_player g3))"
proof -
  have d: "(case deal_card (deck g3) of
                (Some penalty_card, d') \<Rightarrow>
                  Inr (True,
                    next_player
                      (g3\<lparr>deck := d',
                          players :=
                            (players g3)[p := add_card (players g3 ! p) penalty_card]\<rparr>))
              | (None, d') \<Rightarrow> Inr (True, next_player (g3\<lparr>deck := d'\<rparr>)))
        = (if deck g3 \<noteq> [] then
             Inr (True,
               next_player
                 (g3\<lparr>deck := butlast (deck g3),
                     players := (players g3)[p := add_card (players g3 ! p) (last (deck g3))]\<rparr>))
           else Inr (True, next_player g3))"
  proof (cases "deck g3 = []")
    case True
    then have e: "deal_card (deck g3) = (None, deck g3)" by (simp add: deal_card_def)
    have s: "g3\<lparr>deck := deck g3\<rparr> = g3" by simp
    have n: "(deck g3 \<noteq> []) = False" using True by simp
    show ?thesis unfolding e n by (simp only: prod.case option.case s if_False)
  next
    case False
    then show ?thesis by (simp add: deal_card_def)
  qed
  show ?thesis
    unfolding play_card_accepted [OF assms(1-4)] Let_def d assms(5-7) [symmetric] ..
qed

subsection \<open>The \<^verbatim>\<open>game_over\<close> flag\<close>

text \<open>No operation reads the flag, and none clears it.\<close>

lemma game_over_outward:
  "g\<lparr>game_over := x, players := a\<rparr> = g\<lparr>players := a, game_over := x\<rparr>"
  "g\<lparr>game_over := x, deck := b\<rparr> = g\<lparr>deck := b, game_over := x\<rparr>"
  "g\<lparr>game_over := x, discard_pile := b\<rparr> = g\<lparr>discard_pile := b, game_over := x\<rparr>"
  "g\<lparr>game_over := x, current_player_index := i\<rparr>
     = g\<lparr>current_player_index := i, game_over := x\<rparr>"
  "g\<lparr>game_over := x, high_card_played_this_round := y\<rparr>
     = g\<lparr>high_card_played_this_round := y, game_over := x\<rparr>"
  "g\<lparr>game_over := x, round_number := n\<rparr> = g\<lparr>round_number := n, game_over := x\<rparr>"
  by simp_all

lemma get_last_played_card_flag:
  "get_last_played_card (g\<lparr>game_over := x\<rparr>) = get_last_played_card g"
  by (simp add: get_last_played_card_def)

lemma check_game_over_flag:
  "check_game_over (g\<lparr>game_over := True\<rparr>) = (check_game_over g)\<lparr>game_over := True\<rparr>"
  by (simp add: check_game_over_def Let_def split: option.split)

lemma get_next_active_player_flag:
  "get_next_active_player (g\<lparr>game_over := x\<rparr>) = get_next_active_player g"
  by (simp add: get_next_active_player_def)

lemma handle_peak_card_flag:
  "handle_peak_card (g\<lparr>game_over := True\<rparr>) = (handle_peak_card g)\<lparr>game_over := True\<rparr>"
  by (simp add: handle_peak_card_def get_next_active_player_flag Let_def game_over_outward
      split: option.split prod.split)

lemma next_player_flag:
  "next_player (g\<lparr>game_over := True\<rparr>) = (next_player g)\<lparr>game_over := True\<rparr>"
proof (cases "advance (players g) (length (players g)) (current_player_index g)")
  case (Pair j found)
  have "check_game_over (g\<lparr>current_player_index := j, game_over := True\<rparr>)
        = (check_game_over (g\<lparr>current_player_index := j\<rparr>))\<lparr>game_over := True\<rparr>"
    by (rule check_game_over_flag)
  with Pair show ?thesis
    by (simp add: next_player_def Let_def game_over_outward)
qed

lemma play_card_flag:
  "play_card (g\<lparr>game_over := True\<rparr>) p c
     = map_sum id (map_prod id (\<lambda>h. h\<lparr>game_over := True\<rparr>)) (play_card g p c)"
proof (cases "current_player_index g < length (players g)")
  case False
  then show ?thesis by (simp add: play_card_def)
next
  case cur: True
  let ?G = "g\<lparr>game_over := True\<rparr>"
  have Cur: "current_player_index ?G < length (players ?G)" using cur by simp
  show ?thesis
  proof (cases "p \<noteq> current_player_index g \<or> c \<notin> set (hand (players g ! p))
         \<or> \<not> can_play_card c (get_last_played_card g)")
    case True
    then have "p \<noteq> current_player_index ?G \<or> c \<notin> set (hand (players ?G ! p))
         \<or> \<not> can_play_card c (get_last_played_card ?G)"
      by (simp add: get_last_played_card_flag)
    from play_card_rejected [OF Cur this] play_card_rejected [OF cur True]
    show ?thesis by simp
  next
    case False
    then have a: "p = current_player_index g" "c \<in> set (hand (players g ! p))"
      "can_play_card c (get_last_played_card g)" by blast+
    then have A: "p = current_player_index ?G" "c \<in> set (hand (players ?G ! p))"
      "can_play_card c (get_last_played_card ?G)"
      by (simp_all add: get_last_played_card_flag)
    define g1 where "g1 = g\<lparr>players := (players g)[p := snd (remove_card (players g ! p) c)],
                 discard_pile := discard_pile g @ [c]\<rparr>"
    define g2 where
      "g2 = (if is_high_value_card c then g1\<lparr>high_card_played_this_round := True\<rparr> else g1)"
    define g3 where "g3 = (if is_peak_card c then handle_peak_card g2 else g2)"
    define G1 where "G1 = ?G\<lparr>players := (players ?G)[p := snd (remove_card (players ?G ! p) c)],
                 discard_pile := discard_pile ?G @ [c]\<rparr>"
    define G2 where
      "G2 = (if is_high_value_card c then G1\<lparr>high_card_played_this_round := True\<rparr> else G1)"
    define G3 where "G3 = (if is_peak_card c then handle_peak_card G2 else G2)"
    have 1: "G1 = g1\<lparr>game_over := True\<rparr>"
      by (simp add: G1_def g1_def game_over_outward)
    have 2: "G2 = g2\<lparr>game_over := True\<rparr>"
      by (simp add: G2_def g2_def 1 game_over_outward)
    have 3: "G3 = g3\<lparr>game_over := True\<rparr>"
      unfolding G3_def g3_def 2 by (simp add: handle_peak_card_flag)
    have f: "check_game_over
                 (G3\<lparr>players := (players G3)[p := finish_game (players G3 ! p)]\<rparr>)
        = (check_game_over
                 (g3\<lparr>players := (players g3)[p := finish_game (players g3 ! p)]\<rparr>))
            \<lparr>game_over := True\<rparr>"
      using check_game_over_flag
        [of "g3\<lparr>players := (players g3)[p := finish_game (players g3 ! p)]\<rparr>"]
      by (simp add: 3 game_over_outward)
    have n: "next_player
                 (G3\<lparr>deck := butlast (deck G3),
                     players := (players G3)[p := add_card (players G3 ! p) (last (deck G3))]\<rparr>)
        = (next_player
                 (g3\<lparr>deck := butlast (deck g3),
                     players := (players g3)[p := add_card (players g3 ! p) (last (deck g3))]\<rparr>))
            \<lparr>game_over := True\<rparr>"
      using next_player_flag
        [of "g3\<lparr>deck := butlast (deck g3),
                     players := (players g3)[p := add_card (players g3 ! p) (last (deck g3))]\<rparr>"]
      by (simp add: 3 game_over_outward)
    have m: "next_player G3 = (next_player g3)\<lparr>game_over := True\<rparr>"
      unfolding 3 by (rule next_player_flag)
    have same: "players G3 = players g3" "deck G3 = deck g3"
      "high_card_played_this_round G3 = high_card_played_this_round g3"
      by (simp_all add: 3)
    show ?thesis
      unfolding play_card_stages [OF Cur A G1_def G2_def G3_def]
        play_card_stages [OF cur a g1_def g2_def g3_def] f n m
      by (simp add: same)
  qed
qed

lemma draw_card_accepted:
  assumes "current_player_index g < length (players g)" and "p = current_player_index g"
    and "deck g \<noteq> []"
    and "q = add_card (players g ! p) (last (deck g))"
    and "q' = (if should_disqualify_player q then disqualify q else q)"
  shows "draw_card g p
         = Inr (True, next_player (g\<lparr>deck := butlast (deck g), players := (players g)[p := q']\<rparr>))"
proof -
  have d: "deal_card (deck g) = (Some (last (deck g)), butlast (deck g))"
    using assms(3) by (simp add: deal_card_def)
  have n: "(length (players g) \<le> current_player_index g) = False"
    using assms(1) by simp
  have e: "(p \<noteq> current_player_index g) = False" using assms(2) by simp
  show ?thesis
    unfolding draw_card_def d n e Let_def assms(4,5)
    by (simp only: if_False prod.case option.case)
qed

lemma draw_card_flag:
  "draw_card (g\<lparr>game_over := True\<rparr>) p
     = map_sum id (map_prod id (\<lambda>h. h\<lparr>game_over := True\<rparr>)) (draw_card g p)"
proof (cases "current_player_index g < length (players g)")
  case False
  then show ?thesis by (simp add: draw_card_def)
next
  case cur: True
  let ?G = "g\<lparr>game_over := True\<rparr>"
  have Cur: "current_player_index ?G < length (players ?G)" using cur by simp
  show ?thesis
  proof (cases "p \<noteq> current_player_index g \<or> deck g = []")
    case True
    then have "p \<noteq> current_player_index ?G \<or> deck ?G = []" by simp
    from draw_card_rejected [OF Cur this] draw_card_rejected [OF cur True]
    show ?thesis by simp
  next
    case False
    then have a: "p = current_player_index g" "deck g \<noteq> []" by blast+
    then have A: "p = current_player_index ?G" "deck ?G \<noteq> []" by simp_all
    define q where "q = add_card (players g ! p) (last (deck g))"
    define q' where "q' = (if should_disqualify_player q then disqualify q else q)"
    have Q: "q = add_card (players ?G ! p) (last (deck ?G))" by (simp add: q_def)
    let ?h = "g\<lparr>deck := butlast (deck g), players := (players g)[p := q']\<rparr>"
    have "?G\<lparr>deck := butlast (deck ?G), players := (players ?G)[p := q']\<rparr>
          = ?h\<lparr>game_over := True\<rparr>"
      by (simp add: game_over_outward)
    then have "next_player (?G\<lparr>deck := butlast (deck ?G), players := (players ?G)[p := q']\<rparr>)
          = (next_player ?h)\<lparr>game_over := True\<rparr>"
      by (simp only: next_player_flag)
    then show ?thesis
      unfolding draw_card_accepted [OF Cur A Q q'_def] draw_card_accepted [OF cur a q_def q'_def]
      by simp
  qed
qed

text \<open>
  C5, as the specification states it, fails. In a game reached from the constructor the
  first player has finished and the game is over; the same player then draws a card, which
  takes a card from the deck into the hand and passes the turn, and the second player
  plays a card, which goes on the discard pile, and finishes too.
\<close>

theorem terminal_mutation_counterexample:
  "reachable finished_game \<and> game_over finished_game
   \<and> draw_card finished_game 0 = Inr (True, over_draw_game)
   \<and> hand_sizes finished_game = [0, 1, 1, 1] \<and> hand_sizes over_draw_game = [1, 1, 1, 1]
   \<and> length (deck finished_game) = 16 \<and> length (deck over_draw_game) = 15
   \<and> current_player_index finished_game = 0 \<and> current_player_index over_draw_game = 1
   \<and> game_over over_draw_game
   \<and> play_card over_draw_game 1 (mk_card 9 REGULAR) = Inr (True, over_play_game)
   \<and> discard_pile over_draw_game = [mk_card 10 REGULAR]
   \<and> discard_pile over_play_game = [mk_card 10 REGULAR, mk_card 9 REGULAR]
   \<and> \<not> has_finished (players over_draw_game ! 1)
   \<and> has_finished (players over_play_game ! 1)"
proof -
  have "game_over finished_game" by code_simp
  moreover have "draw_card finished_game 0 = Inr (True, over_draw_game)"
    unfolding over_draw_game_def by code_simp
  moreover have "hand_sizes finished_game = [0, 1, 1, 1]" by code_simp
  moreover have "hand_sizes over_draw_game = [1, 1, 1, 1]" by code_simp
  moreover have "length (deck finished_game) = 16" by code_simp
  moreover have "length (deck over_draw_game) = 15" by code_simp
  moreover have "current_player_index finished_game = 0" by code_simp
  moreover have "current_player_index over_draw_game = 1" by code_simp
  moreover have "game_over over_draw_game" by code_simp
  moreover have "play_card over_draw_game 1 (mk_card 9 REGULAR) = Inr (True, over_play_game)"
    unfolding over_play_game_def by code_simp
  moreover have "discard_pile over_draw_game = [mk_card 10 REGULAR]" by code_simp
  moreover have "discard_pile over_play_game = [mk_card 10 REGULAR, mk_card 9 REGULAR]"
    by code_simp
  moreover have "\<not> has_finished (players over_draw_game ! 1)" by code_simp
  moreover have "has_finished (players over_play_game ! 1)" by code_simp
  ultimately show ?thesis using reachable_finished_game by blast
qed

text \<open>
  C5, amended. In a game that is over, \<^verbatim>\<open>play_card\<close> and \<^verbatim>\<open>draw_card\<close> leave the game over,
  and a call that returns \<^verbatim>\<open>False\<close> changes nothing. The engine does not consult the
  flag: on a game that is over, each call returns what it returns on the same game with
  the flag cleared, and leaves the same game but for the flag, which stays set.
\<close>

theorem terminal_flag_kept:
  "(game_over g \<and> play_card g p c = Inr (b, g1) \<longrightarrow> game_over g1)
   \<and> (game_over g \<and> draw_card g p = Inr (b', g2) \<longrightarrow> game_over g2)
   \<and> (game_over g \<and> play_card g p c = Inr (False, g1) \<longrightarrow> g1 = g)
   \<and> (game_over g \<and> draw_card g p = Inr (False, g2) \<longrightarrow> g2 = g)
   \<and> play_card (g\<lparr>game_over := True\<rparr>) p c
       = map_sum id (map_prod id (\<lambda>h. h\<lparr>game_over := True\<rparr>))
           (play_card (g\<lparr>game_over := False\<rparr>) p c)
   \<and> draw_card (g\<lparr>game_over := True\<rparr>) p
       = map_sum id (map_prod id (\<lambda>h. h\<lparr>game_over := True\<rparr>))
           (draw_card (g\<lparr>game_over := False\<rparr>) p)"
proof (intro conjI impI)
  assume a: "game_over g \<and> play_card g p c = Inr (b, g1)"
  then have "g\<lparr>game_over := True\<rparr> = g" by simp
  with play_card_flag [of g p c] a have "g1 = g1\<lparr>game_over := True\<rparr>" by simp
  then have "game_over g1 = game_over (g1\<lparr>game_over := True\<rparr>)" by (rule arg_cong)
  then show "game_over g1" by simp
next
  assume a: "game_over g \<and> draw_card g p = Inr (b', g2)"
  then have "g\<lparr>game_over := True\<rparr> = g" by simp
  with draw_card_flag [of g p] a have "g2 = g2\<lparr>game_over := True\<rparr>" by simp
  then have "game_over g2 = game_over (g2\<lparr>game_over := True\<rparr>)" by (rule arg_cong)
  then show "game_over g2" by simp
next
  assume "game_over g \<and> play_card g p c = Inr (False, g1)"
  then show "g1 = g" using play_card_False by blast
next
  assume "game_over g \<and> draw_card g p = Inr (False, g2)"
  then show "g2 = g" using draw_card_False by blast
next
  show "play_card (g\<lparr>game_over := True\<rparr>) p c
       = map_sum id (map_prod id (\<lambda>h. h\<lparr>game_over := True\<rparr>))
           (play_card (g\<lparr>game_over := False\<rparr>) p c)"
    using play_card_flag [of "g\<lparr>game_over := False\<rparr>" p c] by simp
next
  show "draw_card (g\<lparr>game_over := True\<rparr>) p
       = map_sum id (map_prod id (\<lambda>h. h\<lparr>game_over := True\<rparr>))
           (draw_card (g\<lparr>game_over := False\<rparr>) p)"
    using draw_card_flag [of "g\<lparr>game_over := False\<rparr>" p] by simp
qed

theorem terminal_flag_kept_witness:
  "game_over finished_game
   \<and> draw_card finished_game 0 = Inr (True, over_draw_game)
   \<and> game_over over_draw_game
   \<and> play_card over_draw_game 1 (mk_card 9 REGULAR) = Inr (True, over_play_game)
   \<and> game_over over_play_game
   \<and> play_card finished_game 0 (mk_card 10 REGULAR) = Inr (False, finished_game)
   \<and> draw_card finished_game 1 = Inr (False, finished_game)"
proof -
  have o: "game_over finished_game" by code_simp
  have d: "draw_card finished_game 0 = Inr (True, over_draw_game)"
    unfolding over_draw_game_def by code_simp
  from terminal_flag_kept [of finished_game 0 _ _ _ True over_draw_game] o d
  have o1: "game_over over_draw_game" by blast
  have p: "play_card over_draw_game 1 (mk_card 9 REGULAR) = Inr (True, over_play_game)"
    unfolding over_play_game_def by code_simp
  from terminal_flag_kept [of over_draw_game 1 "mk_card 9 REGULAR" True over_play_game] o1 p
  have o2: "game_over over_play_game" by blast
  have r: "play_card finished_game 0 (mk_card 10 REGULAR)
           = Inr (False, snd (projr (play_card finished_game 0 (mk_card 10 REGULAR))))"
    by code_simp
  from terminal_flag_kept [of finished_game 0 "mk_card 10 REGULAR" _
      "snd (projr (play_card finished_game 0 (mk_card 10 REGULAR)))"] o r
  have "snd (projr (play_card finished_game 0 (mk_card 10 REGULAR))) = finished_game" by blast
  with r have r': "play_card finished_game 0 (mk_card 10 REGULAR) = Inr (False, finished_game)"
    by simp
  have s: "draw_card finished_game 1 = Inr (False, snd (projr (draw_card finished_game 1)))"
    by code_simp
  from terminal_flag_kept [of finished_game 1 _ _ _ _ "snd (projr (draw_card finished_game 1))"] o s
  have "snd (projr (draw_card finished_game 1)) = finished_game" by blast
  with s have s': "draw_card finished_game 1 = Inr (False, finished_game)" by simp
  from o d o1 p o2 r' s' show ?thesis by blast
qed

subsection \<open>The Peak card\<close>

lemma get_next_active_player_cong:
  assumes "length (players g') = length (players g)"
    and "current_player_index g' = current_player_index g"
    and "\<forall>k<length (players g). is_active (players g' ! k) = is_active (players g ! k)"
  shows "get_next_active_player g' = get_next_active_player g"
proof -
  let ?len = "length (players g)"
  let ?xs = "map (\<lambda>i. ((current_player_index g + 1) mod ?len + i) mod ?len) [0..<?len]"
  have "find (\<lambda>k. is_active (players g' ! k)) ?xs = find (\<lambda>k. is_active (players g ! k)) ?xs"
  proof (rule find_cong [OF refl])
    fix k assume "k \<in> set ?xs"
    then obtain i where "i < ?len" and k: "k = ((current_player_index g + 1) mod ?len + i) mod ?len"
      by auto
    then have "0 < ?len" by (cases "players g") simp_all
    with k have "k < ?len" by simp
    with assms(3) show "is_active (players g' ! k) = is_active (players g ! k)" by blast
  qed
  then show ?thesis
    by (simp add: get_next_active_player_def Let_def assms(1,2))
qed

lemma get_next_active_player_order:
  assumes "get_next_active_player g = Some n"
  shows "\<exists>i<length (players g).
           n = (current_player_index g + 1 + i) mod length (players g)
           \<and> (\<forall>j<i. \<not> is_active
                 (players g ! ((current_player_index g + 1 + j) mod length (players g))))"
proof -
  let ?len = "length (players g)"
  let ?f = "\<lambda>i. ((current_player_index g + 1) mod ?len + i) mod ?len"
  have f: "?f i = (current_player_index g + 1 + i) mod ?len" for i
    by (simp add: mod_add_left_eq)
  from assms have "find (\<lambda>k. is_active (players g ! k)) (map ?f [0..<?len]) = Some n"
    by (simp add: get_next_active_player_def Let_def)
  then obtain i where i: "i < ?len" "n = ?f i"
    and least: "\<forall>j<i. \<not> is_active (players g ! (map ?f [0..<?len] ! j))"
    by (auto simp add: find_Some_iff)
  have "\<forall>j<i. \<not> is_active (players g ! ((current_player_index g + 1 + j) mod ?len))"
  proof (intro allI impI)
    fix j assume j: "j < i"
    with i(1) have "map ?f [0..<?len] ! j = ?f j" by simp
    with least j have "\<not> is_active (players g ! ?f j)" by metis
    then show "\<not> is_active (players g ! ((current_player_index g + 1 + j) mod ?len))"
      unfolding f .
  qed
  with i show ?thesis unfolding f by blast
qed

lemma handle_peak_card_Some:
  assumes "get_next_active_player g = Some n"
    and "q = add_cards (players g ! n) (take 5 (rev (deck g)))"
    and "q' = (if should_disqualify_player q then disqualify q else q)"
  shows "handle_peak_card g
         = g\<lparr>deck := take (length (deck g) - 5) (deck g), players := (players g)[n := q']\<rparr>"
  using assms
  by (simp add: handle_peak_card_def deal_cards_eq get_peak_card_penalty_def Let_def)

lemma penalised_player:
  assumes "\<not> is_disqualified r"
    and "q = add_cards r cs"
    and "q' = (if should_disqualify_player q then disqualify q else q)"
  shows "hand q' = hand r @ cs" and "is_disqualified q' = (length (hand q') > 20)"
    and "has_finished q' = has_finished r"
proof -
  show h: "hand q' = hand r @ cs"
    unfolding assms(2,3) by (simp add: disqualify_def hand_add_cards)
  show "has_finished q' = has_finished r"
    unfolding assms(2,3) by (simp add: disqualify_def has_finished_add_cards)
  have "is_disqualified q' = (is_disqualified q \<or> length (hand q) > 20)"
    unfolding assms(3) by (simp add: disqualify_def should_disqualify_player_def)
  also have "\<dots> = (length (hand r) + length cs > 20)"
    unfolding assms(2) using assms(1)
    by (auto simp add: disqualified_add_cards hand_add_cards)
  finally show "is_disqualified q' = (length (hand q') > 20)"
    unfolding h by simp
qed

lemma play_peak_card:
  assumes cur: "current_player_index g < length (players g)"
    and p: "p = current_player_index g"
    and c: "c \<in> set (hand (players g ! p))"
    and peak: "is_peak_card c"
    and nxt: "get_next_active_player g = Some n"
  shows "\<exists>g'. play_card g p c = Inr (True, g')
      \<and> hand (players g' ! n)
          = (if n = p then remove1 c (hand (players g ! p)) else hand (players g ! n))
            @ take 5 (rev (deck g))
      \<and> is_disqualified (players g' ! n) = (length (hand (players g' ! n)) > 20)"
proof -
  define r where "r = snd (remove_card (players g ! p) c)"
  define g1 where "g1 = g\<lparr>players := (players g)[p := snd (remove_card (players g ! p) c)],
                 discard_pile := discard_pile g @ [c]\<rparr>"
  define g3 where "g3 = (if is_peak_card c then handle_peak_card g1 else g1)"
  define q where "q = add_cards (players g1 ! n) (take 5 (rev (deck g1)))"
  define q' where "q' = (if should_disqualify_player q then disqualify q else q)"
  define before where
    "before = (if n = p then remove1 c (hand (players g ! p)) else hand (players g ! n))"
  from p cur have pl: "p < length (players g)" by simp
  have n: "n < length (players g)" and act: "is_active (players g ! n)"
    using nxt by (rule get_next_active_player_Some)+
  have r: "hand r = remove1 c (hand (players g ! p))"
    "is_disqualified r = is_disqualified (players g ! p)"
    "has_finished r = has_finished (players g ! p)"
    using c by (simp_all add: r_def remove_card_def)
  then have ract: "is_active r = is_active (players g ! p)" by (simp add: is_active_def)
  have ps1: "players g1 = (players g)[p := r]" and d1: "deck g1 = deck g"
    and i1: "current_player_index g1 = current_player_index g"
    by (simp_all add: g1_def r_def)
  have "\<forall>k<length (players g). is_active (players g1 ! k) = is_active (players g ! k)"
  proof (intro allI impI)
    fix k assume "k < length (players g)"
    then show "is_active (players g1 ! k) = is_active (players g ! k)"
      unfolding ps1 using ract by (cases "k = p") simp_all
  qed
  with ps1 i1 have "get_next_active_player g1 = get_next_active_player g"
    by (intro get_next_active_player_cong) simp_all
  with nxt have nxt1: "get_next_active_player g1 = Some n" by simp
  have g3: "g3 = g1\<lparr>deck := take (length (deck g1) - 5) (deck g1),
                     players := (players g1)[n := q']\<rparr>"
    unfolding g3_def using peak handle_peak_card_Some [OF nxt1 q_def q'_def] by simp
  have n1: "n < length (players g1)" using n ps1 by simp
  have old: "hand (players g1 ! n) = before" "\<not> is_disqualified (players g1 ! n)"
    using n pl act r
    by (auto simp add: ps1 before_def nth_list_update is_active_def)
  note pen = penalised_player [OF old(2) q_def q'_def]
  have ps3: "players g3 = (players g1)[n := q']" and d3: "deck g3 = take (length (deck g) - 5) (deck g)"
    by (simp_all add: g3 d1)
  have at3: "players g3 ! n = q'" using n1 by (simp add: ps3)
  have hq: "hand q' = before @ take 5 (rev (deck g))"
    using pen(1) old(1) d1 by simp
  have dq: "is_disqualified q' = (length (hand q') > 20)" by (rule pen(2))
  have not_high: "g1 = (if is_high_value_card c then g1\<lparr>high_card_played_this_round := True\<rparr>
                        else g1)"
    using peak by (simp add: is_high_value_card_def)
  have legal: "can_play_card c (get_last_played_card g)"
    using peak by (simp add: can_play_card_def)
  have no_finish: "\<not> can_finish_on_card c (high_card_played_this_round g3)"
    using peak by (simp add: can_finish_on_card_def)
  let ?g4 = "g3\<lparr>deck := butlast (deck g3),
                 players := (players g3)[p := add_card (players g3 ! p) (last (deck g3))]\<rparr>"
  note stages = play_card_stages [OF cur p c legal g1_def not_high g3_def]
  consider (penalty) "\<not> has_cards (players g3 ! p)" "deck g3 \<noteq> []"
    | (plain) "has_cards (players g3 ! p) \<or> deck g3 = []" by blast
  then show ?thesis
  proof cases
    case penalty
    have "n \<noteq> p"
    proof
      assume "n = p"
      with penalty(1) at3 have "hand q' = []" by (simp add: has_cards_def)
      with hq have "take 5 (rev (deck g)) = []" by simp
      then have "deck g = []" by (cases "deck g" rule: rev_cases) simp_all
      with d3 penalty(2) show False by simp
    qed
    then have "players ?g4 ! n = q'" using at3 by simp
    then have "players (next_player ?g4) ! n = q'" by (simp add: next_player_frame)
    moreover from stages penalty no_finish
    have "play_card g p c = Inr (True, next_player ?g4)" by simp
    ultimately show ?thesis using hq dq unfolding before_def by simp
  next
    case plain
    with stages no_finish have "play_card g p c = Inr (True, next_player g3)" by auto
    moreover have "players (next_player g3) ! n = q'" using at3 by (simp add: next_player_frame)
    ultimately show ?thesis using hq dq unfolding before_def by simp
  qed
qed

text \<open>
  C8, as the specification states it, fails. After \<^verbatim>\<open>setup_game\<close> the deck is empty, so when
  the first player plays a Peak card the next active player, the second, who holds seven
  cards, receives none and holds the same seven cards afterwards.
\<close>

theorem peak_penalty_counterexample:
  "reachable (setup_game new_game)
   \<and> current_player_index (setup_game new_game) = 0
   \<and> mk_card 0 PEAK \<in> set (hand (players (setup_game new_game) ! 0))
   \<and> get_next_active_player (setup_game new_game) = Some 1
   \<and> deck (setup_game new_game) = []
   \<and> length (hand (players (setup_game new_game) ! 1)) = 7
   \<and> play_card (setup_game new_game) 0 (mk_card 0 PEAK) = Inr (True, blocked_game_start)
   \<and> length (hand (players blocked_game_start ! 1)) = 7
   \<and> hand (players blocked_game_start ! 1) = hand (players (setup_game new_game) ! 1)"
proof -
  have "current_player_index (setup_game new_game) = 0" by code_simp
  moreover have "mk_card 0 PEAK \<in> set (hand (players (setup_game new_game) ! 0))" by code_simp
  moreover have "get_next_active_player (setup_game new_game) = Some 1" by code_simp
  moreover have "deck (setup_game new_game) = []" by code_simp
  moreover have "length (hand (players (setup_game new_game) ! 1)) = 7" by code_simp
  moreover have "play_card (setup_game new_game) 0 (mk_card 0 PEAK)
                   = Inr (True, blocked_game_start)"
    unfolding blocked_game_start_def by code_simp
  moreover have "length (hand (players blocked_game_start ! 1)) = 7" by code_simp
  moreover have "hand (players blocked_game_start ! 1) = hand (players (setup_game new_game) ! 1)"
    by code_simp
  ultimately show ?thesis using reachable_setup_new_game by blast
qed

text \<open>
  C8, amended. When the current player plays a Peak card of the hand, which is always
  legal, and there is a next active player in turn order after the current player,
  wrapping round and ending with the current player, then the call returns \<^verbatim>\<open>True\<close> and
  that player has received the cards that \<^verbatim>\<open>deal_cards\<close> could take from the deck: the top
  five, or all of them when the deck holds fewer, so \<open>min 5 (length (deck g))\<close> cards. The
  player is disqualified after the call exactly when the hand then holds more than 20
  cards.
\<close>

theorem peak_card_penalty:
  assumes "current_player_index g < length (players g)"
    and "p = current_player_index g"
    and "c \<in> set (hand (players g ! p))"
    and "is_peak_card c"
    and "get_next_active_player g = Some n"
  shows "can_play_card c (get_last_played_card g)
    \<and> n < length (players g) \<and> is_active (players g ! n)
    \<and> (\<exists>i<length (players g).
          n = (p + 1 + i) mod length (players g)
          \<and> (\<forall>j<i. \<not> is_active (players g ! ((p + 1 + j) mod length (players g)))))
    \<and> (\<exists>g'. play_card g p c = Inr (True, g')
          \<and> hand (players g' ! n)
              = (if n = p then remove1 c (hand (players g ! p)) else hand (players g ! n))
                @ take 5 (rev (deck g))
          \<and> is_disqualified (players g' ! n) = (length (hand (players g' ! n)) > 20))
    \<and> length (take 5 (rev (deck g))) = min 5 (length (deck g))"
proof (intro conjI)
  show "can_play_card c (get_last_played_card g)"
    using assms(4) by (simp add: can_play_card_def)
  show "n < length (players g)" and "is_active (players g ! n)"
    using assms(5) by (rule get_next_active_player_Some)+
  show "\<exists>i<length (players g).
          n = (p + 1 + i) mod length (players g)
          \<and> (\<forall>j<i. \<not> is_active (players g ! ((p + 1 + j) mod length (players g))))"
    unfolding assms(2) using assms(5) by (rule get_next_active_player_order)
  show "\<exists>g'. play_card g p c = Inr (True, g')
          \<and> hand (players g' ! n)
              = (if n = p then remove1 c (hand (players g ! p)) else hand (players g ! n))
                @ take 5 (rev (deck g))
          \<and> is_disqualified (players g' ! n) = (length (hand (players g' ! n)) > 20)"
    using assms by (rule play_peak_card)
  show "length (take 5 (rev (deck g))) = min 5 (length (deck g))"
    by (simp add: min.commute)
qed

theorem peak_card_penalty_witness:
  "(\<exists>g'. play_card last_player_game 3 (mk_card 0 PEAK) = Inr (True, g')
      \<and> hand (players g' ! 3) = map (\<lambda>v. mk_card v REGULAR) [7, 6, 5, 4, 3]
      \<and> \<not> is_disqualified (players g' ! 3))
   \<and> (\<exists>g'. play_card (setup_game new_game) 0 (mk_card 0 PEAK) = Inr (True, g')
      \<and> hand (players g' ! 1)
          = replicate 3 (mk_card 0 PEAK) @ map (\<lambda>v. mk_card v REGULAR) [10, 9, 8, 7]
      \<and> \<not> is_disqualified (players g' ! 1))"
proof -
  have a: "current_player_index last_player_game < length (players last_player_game)"
    "3 = current_player_index last_player_game"
    "mk_card 0 PEAK \<in> set (hand (players last_player_game ! 3))"
    "is_peak_card (mk_card 0 PEAK)"
    "get_next_active_player last_player_game = Some 3"
    by code_simp+
  have ha: "(if (3::nat) = 3 then remove1 (mk_card 0 PEAK) (hand (players last_player_game ! 3))
            else hand (players last_player_game ! 3)) @ take 5 (rev (deck last_player_game))
       = map (\<lambda>v. mk_card v REGULAR) [7, 6, 5, 4, 3]"
    by code_simp
  have b: "current_player_index (setup_game new_game) < length (players (setup_game new_game))"
    "0 = current_player_index (setup_game new_game)"
    "mk_card 0 PEAK \<in> set (hand (players (setup_game new_game) ! 0))"
    "get_next_active_player (setup_game new_game) = Some 1"
    by code_simp+
  have hb: "(if (1::nat) = 0
            then remove1 (mk_card 0 PEAK) (hand (players (setup_game new_game) ! 0))
            else hand (players (setup_game new_game) ! 1))
              @ take 5 (rev (deck (setup_game new_game)))
       = replicate 3 (mk_card 0 PEAK) @ map (\<lambda>v. mk_card v REGULAR) [10, 9, 8, 7]"
    by code_simp
  note A = peak_card_penalty [OF a, THEN conjunct2, THEN conjunct2, THEN conjunct2,
      THEN conjunct2, THEN conjunct1, unfolded ha]
  note B = peak_card_penalty [OF b(1,2,3) a(4) b(4), THEN conjunct2, THEN conjunct2,
      THEN conjunct2, THEN conjunct2, THEN conjunct1, unfolded hb]
  from A obtain g1 where
    x: "play_card last_player_game 3 (mk_card 0 PEAK) = Inr (True, g1)"
       "hand (players g1 ! 3) = map (\<lambda>v. mk_card v REGULAR) [7, 6, 5, 4, 3]"
       "is_disqualified (players g1 ! 3) = (length (hand (players g1 ! 3)) > 20)"
    by blast
  from x(2,3) have x': "\<not> is_disqualified (players g1 ! 3)" by simp
  from B obtain g2 where
    y: "play_card (setup_game new_game) 0 (mk_card 0 PEAK) = Inr (True, g2)"
       "hand (players g2 ! 1)
          = replicate 3 (mk_card 0 PEAK) @ map (\<lambda>v. mk_card v REGULAR) [10, 9, 8, 7]"
       "is_disqualified (players g2 ! 1) = (length (hand (players g2 ! 1)) > 20)"
    by blast
  from y(2,3) have y': "\<not> is_disqualified (players g2 ! 1)" by simp
  from x(1,2) x' y(1,2) y' show ?thesis by blast
qed

end
